theory Spec2Isabelle
  imports Main "HOL-Library.Word"
begin

unbundle bit_operations_syntax

section \<open>Data model of proxy.cpp\<close>

text \<open>
  Bytes are characters, a buffer is a list of bytes. A \<open>Client*\<close> or \<open>Server*\<close> is an
  address or \<open>nullptr\<close> (\<open>None\<close>). Objects live in an explicit store; addresses come from
  a counter and are never reused, so that a pointer to a deleted object stays
  recognisable as dangling.
\<close>

type_synonym bytes = "char list"
type_synonym addr = nat
type_synonym ptr = "addr option"

text \<open>
  Ways in which a handler does not return to the reactor: \<open>exit(status)\<close>; the
  dereference of a null or of a dangling pointer (undefined behaviour in C++); the I/O
  error of the byte buffer; and the \<open>writev\<close> loop still spinning on \<open>EAGAIN\<close> after
  every answer the environment supplied.
\<close>

datatype fatal = Exit nat | NullDeref | UseAfterFree | IoError | Spin

text \<open>The constants of \<open>sys/epoll.h\<close> and \<open>errno.h\<close> (Linux) that the source uses.\<close>

definition EPOLLIN :: "32 word" where "EPOLLIN = 0x001"
definition EPOLLOUT :: "32 word" where "EPOLLOUT = 0x004"
definition EPOLLRDHUP :: "32 word" where "EPOLLRDHUP = 0x2000"
definition EPOLLET :: "32 word" where "EPOLLET = 0x80000000"

definition EINTR :: int where "EINTR = 4"
definition EAGAIN :: int where "EAGAIN = 11"
definition EPROTO :: int where "EPROTO = 71"
definition ECONNABORTED :: int where "ECONNABORTED = 103"
definition EINPROGRESS :: int where "EINPROGRESS = 115"

text \<open>
  \<open>Connection\<close> owns the file descriptor. \<open>interest\<close> is the event mask the kernel holds
  for that descriptor in the epoll set (what the last successful \<open>epoll_ctl\<close> on it
  wrote); it is kept with the connection that owns the descriptor.
  \<open>Client\<close> has one \<open>buffer\<close>, used for the request bytes and for the reply bytes, and
  the \<open>peer\<close> pointer. \<open>Server\<close> has \<open>_buffer\<close> (here \<open>s_buffer\<close>), \<open>clients\<close> (the
  spec's staging) and \<open>ready_clients\<close> (the spec's pending).
\<close>

record Connection =
  fd :: int
  interest :: "32 word"

record Client = Connection +
  buffer :: bytes
  peer :: ptr

record Server = Connection +
  s_buffer :: bytes
  clients :: "ptr list"
  ready_clients :: "ptr list"

text \<open>A system call that leaves the process, as seen from outside.\<close>

datatype syscall = Writev int "bytes list" int | Write int bytes

text \<open>
  \<open>Proxy\<close>: \<open>server_conn\<close> is the singleton pointer together with the object it points
  to (the constructor and the destructor of \<open>Server\<close> keep the two in step: line 388 and
  \<open>shut_server\<close>); \<open>client_heap\<close> holds the live \<open>Client\<close> objects; \<open>syslog\<close> records the
  write calls issued so far.
\<close>

record Proxy =
  server_conn :: "(addr \<times> Server) option"
  client_heap :: "addr \<rightharpoonup> Client"
  next_addr :: addr
  syslog :: "syscall list"

text \<open>
  What the environment answers during one handler invocation: the outcome of
  \<open>Buffer::read\<close> on the handler's descriptor, the successive (return value, errno) of
  \<open>writev\<close>, the return value of \<open>epoll_ctl\<close> per descriptor, and for \<open>connect_to\<close> and
  \<open>accept_from\<close> the results of \<open>socket\<close>, \<open>fcntl\<close>, \<open>gethostbyname\<close>, \<open>connect\<close> and
  \<open>accept\<close>.
\<close>

datatype read_result = ReadBytes bytes | ReadError

record env =
  e_read :: read_result
  e_writev :: "(int \<times> int) list"
  e_ctl :: "int \<Rightarrow> int"
  e_socket :: int
  e_fcntl :: bool
  e_host :: bool
  e_connect :: "int \<times> int"
  e_accept :: "int list"
  e_accept_errno :: int

section \<open>Byte buffer\<close>

text \<open>
  The class \<open>Buffer\<close> is declared in buffer.hpp, which is not among the sources. Its
  operations are taken from sections 3 and 4.1 of the spec; a buffer is the list of its
  bytes.
\<close>

text \<open>
  Modelled from the spec: \<open>Buffer::read(fd)\<close>, absent from the sources. It appends the
  bytes read from the descriptor until the read would block and returns their number
  (0 when the peer has closed); an unexpected errno is IO_ERROR, which is fatal.
\<close>

definition Buffer_read :: "read_result \<Rightarrow> bytes \<Rightarrow> fatal + (int \<times> bytes)" where
  "Buffer_read r b = (case r of ReadError \<Rightarrow> Inl IoError
                      | ReadBytes d \<Rightarrow> Inr (int (length d), b @ d))"

text \<open>
  Modelled from the spec: \<open>Buffer::write(fd)\<close>, absent from the sources. It drains the
  whole buffer to the descriptor (the design assumes that the write completes).
\<close>

definition Buffer_write :: "int \<Rightarrow> bytes \<Rightarrow> syscall list" where
  "Buffer_write f b = [Write f b]"

text \<open>Modelled from the spec: \<open>Buffer::clear()\<close>, absent from the sources.\<close>

definition Buffer_clear :: "bytes \<Rightarrow> bytes" where
  "Buffer_clear b = []"

text \<open>
  Modelled from the spec: \<open>Buffer::truncate_from_begin\<close>, absent from the sources; the
  spec's \<open>truncate_prefix(n)\<close>, which drops the first n bytes and keeps the remainder
  (precondition: n is at most the size). The iterator argument is its offset.
\<close>

definition truncate_from_begin :: "nat \<Rightarrow> bytes \<Rightarrow> bytes" where
  "truncate_from_begin n b = drop n b"

text \<open>
  Modelled from the spec: \<open>Buffer::buffer_ready(iov)\<close>, absent from the sources; the
  spec's scatter view, which adds the buffer's byte range to the iovec and copies
  nothing.
\<close>

definition buffer_ready :: "bytes \<Rightarrow> bytes list \<Rightarrow> bytes list" where
  "buffer_ready b iov = iov @ [b]"

text \<open>Modelled from the spec: \<open>Buffer::size()\<close>, absent from the sources.\<close>

definition Buffer_size :: "bytes \<Rightarrow> nat" where
  "Buffer_size b = length b"

text \<open>
  Modelled from the spec: \<open>Buffer::copy_from(first, last)\<close>, absent from the sources; the
  spec's \<open>append(range)\<close>: the bytes of the range are appended to the buffer.
\<close>

definition copy_from :: "bytes \<Rightarrow> bytes \<Rightarrow> bytes" where
  "copy_from b rng = b @ rng"

section \<open>Framer interface\<close>

text \<open>
  Modelled from the spec: the result type of \<open>msg::split\<close> (message.hpp is not among the
  sources). Section 3, Parse Result: the complete messages as byte ranges (begin, end)
  of the source buffer, the flag \<open>finished\<close>, and the resume offset
  (\<open>interrupt_point\<close> in the source). The framer itself is a parameter of the handlers:
  \<open>None\<close> is the exception \<open>BadRedisMessage\<close>.
\<close>

record split_result =
  ranges :: "(nat \<times> nat) list"
  finished :: bool
  interrupt_point :: nat

type_synonym splitter = "bytes \<Rightarrow> split_result option"

definition range_bytes :: "bytes \<Rightarrow> nat \<times> nat \<Rightarrow> bytes" where
  "range_bytes b r = take (snd r - fst r) (drop (fst r) b)"

section \<open>Server (the upstream session)\<close>

text \<open>Lines 128-133: the loop that builds the iovec and sums the sizes.\<close>

fun gather :: "(addr \<rightharpoonup> Client) \<Rightarrow> ptr list \<Rightarrow> bytes list \<Rightarrow> int \<Rightarrow> fatal + (bytes list \<times> int)" where
  "gather h [] iov n = Inr (iov, n)"
| "gather h (None # cs) iov n = Inl NullDeref"
| "gather h (Some a # cs) iov n =
     (case h a of None \<Rightarrow> Inl UseAfterFree
      | Some cli \<Rightarrow> gather h cs (buffer_ready (buffer cli) iov) (n + int (Buffer_size (buffer cli))))"

text \<open>
  Lines 135-145: each answer of the environment is one call of \<open>writev\<close>. The result is
  the list of the calls made.
\<close>

fun writev_loop :: "int \<Rightarrow> bytes list \<Rightarrow> int \<Rightarrow> (int \<times> int) list \<Rightarrow> fatal + syscall list" where
  "writev_loop f iov n [] = Inl Spin"
| "writev_loop f iov n ((nwrite, errno) # rest) =
     (if nwrite \<le> 0 \<and> errno = EAGAIN then
        (case writev_loop f iov n rest of Inl e \<Rightarrow> Inl e
         | Inr calls \<Rightarrow> Inr (Writev f iov nwrite # calls))
      else if nwrite \<noteq> n then Inl (Exit 1)
      else Inr [Writev f iov nwrite])"

definition Server__send_to :: "env \<Rightarrow> Proxy \<Rightarrow> fatal + Proxy" where
  "Server__send_to ev p =
     (case server_conn p of None \<Rightarrow> Inl UseAfterFree
      | Some (sa, this) \<Rightarrow>
          if clients this = [] then Inr p
          else if ready_clients this \<noteq> [] then Inr p
          else
            let moved = this\<lparr>ready_clients := clients this, clients := []\<rparr> in
            (case gather (client_heap p) (ready_clients moved) [] 0 of Inl e \<Rightarrow> Inl e
             | Inr (iov, n) \<Rightarrow>
                 (case writev_loop (fd moved) iov n (e_writev ev) of Inl e \<Rightarrow> Inl e
                  | Inr calls \<Rightarrow>
                      if e_ctl ev (fd moved) = - 1 then Inl (Exit 1)
                      else Inr (p\<lparr>server_conn := Some (sa, moved\<lparr>interest := EPOLLIN OR EPOLLET\<rparr>),
                                  syslog := syslog p @ calls\<rparr>))))"

text \<open>
  Lines 155-167. The iterator \<open>client_it\<close> is its index in the vector; the ranges are
  read from the buffer \<open>b\<close>. Reading past the end of the vector is the dereference of
  a dangling iterator.
\<close>

fun copy_messages :: "ptr list \<Rightarrow> nat \<Rightarrow> bytes \<Rightarrow> (nat \<times> nat) list \<Rightarrow> (addr \<rightharpoonup> Client)
    \<Rightarrow> fatal + (nat \<times> (addr \<rightharpoonup> Client))" where
  "copy_messages v client_it b [] h = Inr (client_it, h)"
| "copy_messages v client_it b (r # rs) h =
     (if length v \<le> client_it then Inl UseAfterFree
      else (case v ! client_it of
              None \<Rightarrow> copy_messages v (Suc client_it) b rs h
            | Some a \<Rightarrow>
                (case h a of None \<Rightarrow> Inl UseAfterFree
                 | Some cli \<Rightarrow>
                     copy_messages v (Suc client_it) b rs
                       (h(a \<mapsto> cli\<lparr>buffer := copy_from (buffer cli) (range_bytes b r)\<rparr>)))))"

text \<open>Lines 343-360, on the iterator range given as the list of its elements.\<close>

fun notify_each :: "env \<Rightarrow> ptr list \<Rightarrow> (addr \<rightharpoonup> Client) \<Rightarrow> fatal + (addr \<rightharpoonup> Client)" where
  "notify_each ev [] h = Inr h"
| "notify_each ev (None # cs) h = notify_each ev cs h"
| "notify_each ev (Some a # cs) h =
     (case h a of None \<Rightarrow> Inl UseAfterFree
      | Some cli \<Rightarrow>
          if e_ctl ev (fd cli) = - 1 then Inl (Exit 1)
          else notify_each ev cs (h(a \<mapsto> cli\<lparr>interest := EPOLLIN OR EPOLLOUT OR EPOLLET\<rparr>)))"

text \<open>
  Lines 178-184: the diagnostic loop before \<open>exit(1)\<close> reads \<open>cli->buffer\<close> of every
  entry of \<open>ready_clients\<close>, with no test for \<open>nullptr\<close>.
\<close>

fun report_clients :: "(addr \<rightharpoonup> Client) \<Rightarrow> ptr list \<Rightarrow> fatal" where
  "report_clients h [] = Exit 1"
| "report_clients h (None # cs) = NullDeref"
| "report_clients h (Some a # cs) =
     (case h a of None \<Rightarrow> UseAfterFree | Some cli \<Rightarrow> report_clients h cs)"

text \<open>
  Lines 169-207. \<open>rint\<close> of the vector's size is exact for every size a vector can
  have, so the comparison is one of integers.
\<close>

definition Server__recv_from :: "splitter \<Rightarrow> env \<Rightarrow> Proxy \<Rightarrow> fatal + Proxy" where
  "Server__recv_from split ev p =
     (case server_conn p of None \<Rightarrow> Inl UseAfterFree
      | Some (sa, this) \<Rightarrow>
          (case Buffer_read (e_read ev) (s_buffer this) of Inl e \<Rightarrow> Inl e
           | Inr (n, b) \<Rightarrow>
               if n = 0 then Inr p
               else
                 (case split b of None \<Rightarrow> Inl (Exit 1)
                  | Some messages \<Rightarrow>
                      if int (length (ready_clients this)) < int (length (ranges messages))
                      then Inl (report_clients (client_heap p) (ready_clients this))
                      else
                        (case copy_messages (ready_clients this) 0 b (ranges messages) (client_heap p) of
                           Inl e \<Rightarrow> Inl e
                         | Inr (client_it, h) \<Rightarrow>
                             (case notify_each ev (take client_it (ready_clients this)) h of
                                Inl e \<Rightarrow> Inl e
                              | Inr h' \<Rightarrow>
                                  let b' = (if finished messages then Buffer_clear b
                                            else truncate_from_begin (interrupt_point messages) b) in
                                  if e_ctl ev (fd this) = - 1 then Inl (Exit 1)
                                  else Inr (p\<lparr>server_conn :=
                                                Some (sa, this\<lparr>s_buffer := b',
                                                   ready_clients := drop client_it (ready_clients this),
                                                   interest := EPOLLIN OR EPOLLOUT OR EPOLLET\<rparr>),
                                              client_heap := h'\<rparr>))))))"

text \<open>Lines 209-212.\<close>

definition push_client :: "addr \<Rightarrow> Server \<Rightarrow> Server" where
  "push_client cli s = s\<lparr>clients := clients s @ [Some cli]\<rparr>"

text \<open>Lines 214-224: \<open>std::find_if\<close> as the index of the first match, or the length.\<close>

fun find_if :: "('a \<Rightarrow> bool) \<Rightarrow> 'a list \<Rightarrow> nat" where
  "find_if P [] = 0"
| "find_if P (x # xs) = (if P x then 0 else Suc (find_if P xs))"

definition erase :: "nat \<Rightarrow> 'a list \<Rightarrow> 'a list" where
  "erase i xs = take i xs @ drop (Suc i) xs"

definition pop_client_from :: "ptr list \<Rightarrow> addr \<Rightarrow> ptr list" where
  "pop_client_from cs cli =
     (let i = find_if (\<lambda>c. c = Some cli) cs in
      if i \<noteq> length cs then erase i cs else cs)"

text \<open>Lines 226-231: \<open>std::replace\<close> of every occurrence by \<open>nullptr\<close>.\<close>

definition replace :: "'a \<Rightarrow> 'a \<Rightarrow> 'a list \<Rightarrow> 'a list" where
  "replace old new xs = map (\<lambda>x. if x = old then new else x) xs"

definition pop_client :: "addr \<Rightarrow> Server \<Rightarrow> Server" where
  "pop_client cli s =
     s\<lparr>clients := pop_client_from (clients s) cli,
       ready_clients := replace (Some cli) None (ready_clients s)\<rparr>"

section \<open>Proxy\<close>

text \<open>Lines 440-451, and the destructors (lines 86-99, 233-236).\<close>

definition shut_client :: "addr \<Rightarrow> Proxy \<Rightarrow> Proxy" where
  "shut_client cli p =
     (case server_conn p of None \<Rightarrow> p
      | Some (sa, s) \<Rightarrow> p\<lparr>server_conn := Some (sa, pop_client cli s)\<rparr>)"

definition shut_server :: "Proxy \<Rightarrow> Proxy" where
  "shut_server p = p\<lparr>server_conn := None\<rparr>"

definition delete_Client :: "addr \<Rightarrow> Proxy \<Rightarrow> Proxy" where
  "delete_Client cli p = (let q = shut_client cli p in q\<lparr>client_heap := (client_heap q)(cli := None)\<rparr>)"

definition delete_Server :: "Proxy \<Rightarrow> Proxy" where
  "delete_Server p = shut_server p"

text \<open>Lines 362-409. The new \<open>Server\<close> is registered with \<open>EPOLLIN | EPOLLOUT | EPOLLET\<close>.\<close>

definition connect_to :: "env \<Rightarrow> Proxy \<Rightarrow> fatal + (addr \<times> Proxy)" where
  "connect_to ev p =
     (case server_conn p of Some (sa, s) \<Rightarrow> Inr (sa, p)
      | None \<Rightarrow>
          if e_socket ev < 0 then Inl (Exit 1)
          else if \<not> e_fcntl ev then Inl (Exit 1)
          else if \<not> e_host ev then Inl (Exit 1)
          else
            let c = next_addr p;
                s = \<lparr>fd = e_socket ev, interest = EPOLLIN OR EPOLLOUT OR EPOLLET,
                     s_buffer = [], clients = [], ready_clients = []\<rparr>
            in if e_ctl ev (e_socket ev) = - 1 then Inl (Exit 1)
               else if fst (e_connect ev) < 0 \<and> snd (e_connect ev) \<noteq> EINPROGRESS then Inl (Exit 1)
               else Inr (c, p\<lparr>server_conn := Some (c, s), next_addr := Suc c\<rparr>))"

text \<open>
  Lines 411-438: the answers of \<open>accept\<close> in order; when they are used up, \<open>accept\<close>
  returns -1 with \<open>e_accept_errno\<close>.
\<close>

definition accept_done :: "env \<Rightarrow> Proxy \<Rightarrow> fatal + Proxy" where
  "accept_done ev p =
     (if e_accept_errno ev \<noteq> EAGAIN \<and> e_accept_errno ev \<noteq> ECONNABORTED
         \<and> e_accept_errno ev \<noteq> EPROTO \<and> e_accept_errno ev \<noteq> EINTR
      then Inl (Exit 1) else Inr p)"

fun accept_loop :: "env \<Rightarrow> int list \<Rightarrow> Proxy \<Rightarrow> fatal + Proxy" where
  "accept_loop ev [] p = accept_done ev p"
| "accept_loop ev (conn_sock # rest) p =
     (if 0 < conn_sock then
        if \<not> e_fcntl ev then Inl (Exit 1)
        else if e_ctl ev conn_sock = - 1 then Inl (Exit 1)
        else accept_loop ev rest
               (p\<lparr>client_heap := (client_heap p)(next_addr p \<mapsto>
                      \<lparr>fd = conn_sock, interest = EPOLLIN OR EPOLLET OR EPOLLRDHUP,
                       buffer = [], peer = None\<rparr>),
                   next_addr := Suc (next_addr p)\<rparr>)
      else if conn_sock = - 1 then accept_done ev p
      else Inr p)"

definition accept_from :: "env \<Rightarrow> Proxy \<Rightarrow> fatal + Proxy" where
  "accept_from ev p = accept_loop ev (e_accept ev) p"

section \<open>Client\<close>

text \<open>Lines 252-263.\<close>

definition Client__send_to :: "env \<Rightarrow> addr \<Rightarrow> Proxy \<Rightarrow> fatal + Proxy" where
  "Client__send_to ev a p =
     (case client_heap p a of None \<Rightarrow> Inl UseAfterFree
      | Some this \<Rightarrow>
          let calls = Buffer_write (fd this) (buffer this) in
          if e_ctl ev (fd this) = - 1 then Inl (Exit 1)
          else Inr (p\<lparr>client_heap := (client_heap p)(a \<mapsto>
                         this\<lparr>buffer := Buffer_clear (buffer this), interest := EPOLLIN OR EPOLLET\<rparr>),
                      syslog := syslog p @ calls\<rparr>))"

text \<open>
  Lines 265-285. \<open>svr\<close> is the client's \<open>peer\<close>; it dangles when the server it pointed
  to has been deleted.
\<close>

definition Client__recv_from :: "env \<Rightarrow> addr \<Rightarrow> Proxy \<Rightarrow> fatal + Proxy" where
  "Client__recv_from ev a p =
     (case client_heap p a of None \<Rightarrow> Inl UseAfterFree
      | Some this \<Rightarrow>
          (case (case peer this of None \<Rightarrow> connect_to ev p | Some pa \<Rightarrow> Inr (pa, p)) of
             Inl e \<Rightarrow> Inl e
           | Inr (svr, p1) \<Rightarrow>
               (case server_conn p1 of None \<Rightarrow> Inl UseAfterFree
                | Some (sa, s) \<Rightarrow>
                    if sa \<noteq> svr then Inl UseAfterFree
                    else
                      (case Buffer_read (e_read ev) (buffer this) of Inl e \<Rightarrow> Inl e
                       | Inr (n, b) \<Rightarrow>
                           let p2 = p1\<lparr>server_conn := Some (sa, push_client a s),
                                       client_heap := (client_heap p1)(a \<mapsto>
                                          this\<lparr>buffer := b, peer := Some svr\<rparr>)\<rparr>
                           in if n = 0 then Inr (delete_Client a p2)
                              else if e_ctl ev (fd s) = - 1 then Inl (Exit 1)
                              else Inr (p2\<lparr>server_conn :=
                                   Some (sa, (push_client a s)\<lparr>interest := EPOLLIN OR EPOLLOUT OR EPOLLET\<rparr>)\<rparr>)))))"

text \<open>Lines 238-250.\<close>

definition Client_triggered :: "32 word \<Rightarrow> env \<Rightarrow> addr \<Rightarrow> Proxy \<Rightarrow> fatal + Proxy" where
  "Client_triggered events ev a p =
     (if events AND EPOLLRDHUP \<noteq> 0 then Inr (delete_Client a p)
      else
        (case (if events AND EPOLLIN \<noteq> 0 then Client__recv_from ev a p else Inr p) of
           Inl e \<Rightarrow> Inl e
         | Inr p1 \<Rightarrow> if events AND EPOLLOUT \<noteq> 0 then Client__send_to ev a p1 else Inr p1))"

text \<open>Lines 101-113.\<close>

definition Server_triggered :: "splitter \<Rightarrow> 32 word \<Rightarrow> env \<Rightarrow> Proxy \<Rightarrow> fatal + Proxy" where
  "Server_triggered split events ev p =
     (if events AND EPOLLRDHUP \<noteq> 0 then Inr (delete_Server p)
      else
        (case (if events AND EPOLLIN \<noteq> 0 then Server__recv_from split ev p else Inr p) of
           Inl e \<Rightarrow> Inl e
         | Inr p1 \<Rightarrow> if events AND EPOLLOUT \<noteq> 0 then Server__send_to ev p1 else Inr p1))"

section \<open>Reactor\<close>

text \<open>
  Lines 64-82: one event of a batch is the connection it belongs to, the mask, and the
  environment's answers while its handler runs; \<open>WaitFailed\<close> is \<open>epoll_wait\<close> returning
  -1 with the given errno. The kernel reports no event for a descriptor that has been
  closed, so an event for a deleted connection does not occur and is skipped.
\<close>

datatype event =
    AcceptorEv env
  | ClientEv addr "32 word" env
  | ServerEv "32 word" env
  | WaitFailed int

fun client_readable :: "event \<Rightarrow> bool" where
  "client_readable (ClientEv a events ev) = (events AND EPOLLRDHUP = 0 \<and> events AND EPOLLIN \<noteq> 0)"
| "client_readable _ = False"

fun dispatch :: "splitter \<Rightarrow> event \<Rightarrow> Proxy \<Rightarrow> fatal + Proxy" where
  "dispatch split (AcceptorEv ev) p = accept_from ev p"
| "dispatch split (ClientEv a events ev) p =
     (case client_heap p a of None \<Rightarrow> Inr p | Some c \<Rightarrow> Client_triggered events ev a p)"
| "dispatch split (ServerEv events ev) p =
     (case server_conn p of None \<Rightarrow> Inr p | Some s \<Rightarrow> Server_triggered split events ev p)"
| "dispatch split (WaitFailed errno) p = (if errno = EINTR then Inr p else Inl (Exit 1))"

fun run :: "splitter \<Rightarrow> event list \<Rightarrow> Proxy \<Rightarrow> fatal + Proxy" where
  "run split [] p = Inr p"
| "run split (e # es) p = (case dispatch split e p of Inl f \<Rightarrow> Inl f | Inr p' \<Rightarrow> run split es p')"

text \<open>Lines 287-294: the proxy before any connection.\<close>

definition Proxy_init :: Proxy where
  "Proxy_init = \<lparr>server_conn = None, client_heap = Map.empty, next_addr = 0, syslog = []\<rparr>"

section \<open>A RESP framer\<close>

text \<open>
  \<open>msg::split\<close> is defined in message.cpp, which is not among the sources. The handlers
  take the framer as a parameter; the framer below, written after section 4.2 of the
  spec, instantiates it in the scenarios. A count of remaining steps (\<open>fuel\<close>), started
  at the length of the input, bounds the recursion: every step consumes a byte.
\<close>

definition CR :: char where "CR = CHR 0x0D"
definition LF :: char where "LF = CHR 0x0A"

text \<open>
  Modelled from the spec: part of the absent \<open>msg::split\<close>. The number of bytes up to
  and including the first CRLF, if there is one.
\<close>

fun line_len :: "bytes \<Rightarrow> nat option" where
  "line_len (a # b # rest) = (if a = CR \<and> b = LF then Some 2 else map_option Suc (line_len (b # rest)))"
| "line_len _ = None"

text \<open>
  Modelled from the spec: part of the absent \<open>msg::split\<close>. The decimal length prefix of
  a bulk string or an array, which may be negative (\<open>$-1\<close>).
\<close>

fun digits :: "bytes \<Rightarrow> nat \<Rightarrow> nat option" where
  "digits [] acc = Some acc"
| "digits (c # cs) acc =
     (if 48 \<le> (of_char c :: nat) \<and> (of_char c :: nat) \<le> 57
      then digits cs (10 * acc + (of_char c - 48)) else None)"

definition length_prefix :: "bytes \<Rightarrow> int option" where
  "length_prefix l =
     (case l of [] \<Rightarrow> None
      | c # cs \<Rightarrow> if c = CHR ''-'' then (if cs = [] then None else map_option (\<lambda>n. - int n) (digits cs 0))
                  else map_option int (digits l 0))"

text \<open>
  Modelled from the spec: part of the absent \<open>msg::split\<close>. \<open>frames fuel k bs\<close> locates
  the end of \<open>k\<close> consecutive frames at the head of \<open>bs\<close>: the five types \<open>+\<close>, \<open>-\<close>, \<open>:\<close>
  (a line), \<open>$\<close> (a length line, then the payload and CRLF) and \<open>*\<close> (a count line, then
  that many frames); the input ending inside a frame is \<open>Partial\<close>; another first byte
  is a malformed prefix.
\<close>

datatype scan = Complete nat | Partial | Malformed

fun after :: "nat \<Rightarrow> scan \<Rightarrow> scan" where
  "after n (Complete m) = Complete (n + m)"
| "after n s = s"

fun frames :: "nat \<Rightarrow> nat \<Rightarrow> bytes \<Rightarrow> scan" where
  "frames fuel 0 bs = Complete 0"
| "frames 0 (Suc k) bs = Partial"
| "frames (Suc fuel) (Suc k) [] = Partial"
| "frames (Suc fuel) (Suc k) (t # rest) =
    (if t = CHR ''+'' \<or> t = CHR ''-'' \<or> t = CHR '':'' then
       (case line_len rest of None \<Rightarrow> Partial
        | Some n \<Rightarrow> after (Suc n) (frames fuel k (drop n rest)))
     else if t = CHR ''$'' then
       (case line_len rest of None \<Rightarrow> Partial
        | Some n \<Rightarrow>
            (case length_prefix (take (n - 2) rest) of None \<Rightarrow> Malformed
             | Some len \<Rightarrow>
                 if len < 0 then after (Suc n) (frames fuel k (drop n rest))
                 else if length rest < n + nat len + 2 then Partial
                 else after (Suc (n + nat len + 2)) (frames fuel k (drop (n + nat len + 2) rest))))
     else if t = CHR ''*'' then
       (case line_len rest of None \<Rightarrow> Partial
        | Some n \<Rightarrow>
            (case length_prefix (take (n - 2) rest) of None \<Rightarrow> Malformed
             | Some cnt \<Rightarrow> after (Suc n) (frames fuel ((if cnt < 0 then 0 else nat cnt) + k) (drop n rest))))
     else Malformed)"

text \<open>
  Modelled from the spec: the absent \<open>msg::split\<close>. The complete messages of the buffer
  in order, as ranges; \<open>finished\<close> when the buffer is consumed exactly; otherwise the
  offset where the trailing partial message starts; \<open>None\<close> (BAD_MESSAGE) on a malformed
  prefix.
\<close>

fun split_loop :: "nat \<Rightarrow> nat \<Rightarrow> bytes \<Rightarrow> split_result option" where
  "split_loop fuel off [] = Some \<lparr>ranges = [], finished = True, interrupt_point = off\<rparr>"
| "split_loop 0 off bs = Some \<lparr>ranges = [], finished = False, interrupt_point = off\<rparr>"
| "split_loop (Suc fuel) off bs =
     (case frames (length bs) 1 bs of
        Malformed \<Rightarrow> None
      | Partial \<Rightarrow> Some \<lparr>ranges = [], finished = False, interrupt_point = off\<rparr>
      | Complete n \<Rightarrow> map_option (\<lambda>r. r\<lparr>ranges := (off, off + n) # ranges r\<rparr>)
                        (split_loop fuel (off + n) (drop n bs)))"

definition resp_split :: splitter where
  "resp_split b = split_loop (length b) 0 b"

section \<open>Notions used in the statements\<close>

text \<open>
  The bytes that one run of \<open>copy_messages\<close> owes to the client at address \<open>a\<close>: the
  ranges \<open>rs\<close> are paired with the entries of \<open>v\<close> position by position, and the bytes of
  those paired with \<open>a\<close> are joined in order. A range paired with \<open>nullptr\<close> belongs to
  nobody.
\<close>

definition routed :: "bytes \<Rightarrow> ptr list \<Rightarrow> (nat \<times> nat) list \<Rightarrow> addr \<Rightarrow> bytes" where
  "routed b v rs a =
     concat (map (\<lambda>(c, r). range_bytes b r) (filter (\<lambda>(c, r). c = Some a) (zip v rs)))"

text \<open>The client store after the replies have been handed out and their owners notified.\<close>

definition deliver :: "bytes \<Rightarrow> ptr list \<Rightarrow> (nat \<times> nat) list \<Rightarrow> (addr \<rightharpoonup> Client) \<Rightarrow> (addr \<rightharpoonup> Client)" where
  "deliver b v rs h =
     (\<lambda>a. map_option (\<lambda>c. c\<lparr>buffer := buffer c @ routed b v rs a,
                            interest := (if Some a \<in> set (take (length rs) v)
                                         then EPOLLIN OR EPOLLOUT OR EPOLLET else interest c)\<rparr>) (h a))"

text \<open>
  Section 3 of the spec, Parse Result: the ranges of the complete messages follow one
  another from \<open>start\<close> and end at \<open>stop\<close>, where the trailing partial message begins.
\<close>

fun contiguous :: "nat \<Rightarrow> (nat \<times> nat) list \<Rightarrow> nat \<Rightarrow> bool" where
  "contiguous start [] stop = (start = stop)"
| "contiguous start ((b, e) # rs) stop = (b = start \<and> b \<le> e \<and> contiguous e rs stop)"

text \<open>
  The sum of the lengths of pending and staging, the number of live client sessions,
  and the two masks the source gives the upstream's descriptor.
\<close>

definition queued :: "Proxy \<Rightarrow> nat" where
  "queued p = (case server_conn p of None \<Rightarrow> 0
               | Some (sa, s) \<Rightarrow> length (ready_clients s) + length (clients s))"

definition live_clients :: "Proxy \<Rightarrow> nat" where
  "live_clients p = card (dom (client_heap p))"

definition upstream_mask_ok :: "Proxy \<Rightarrow> bool" where
  "upstream_mask_ok p = (case server_conn p of None \<Rightarrow> True
       | Some (sa, s) \<Rightarrow> interest s = EPOLLIN OR EPOLLET \<or> interest s = EPOLLIN OR EPOLLOUT OR EPOLLET)"

section \<open>Scenarios\<close>

text \<open>
  The request and the reply of scenario S1, an environment in which every call
  succeeds and nothing is read, and the states of scenario S3: two clients (addresses 0
  and 1, descriptors 7 and 8) whose requests are staged at the upstream (address 2,
  descriptor 6), and the same after the upstream's \<open>_send_to\<close>.
\<close>

definition ping :: bytes where
  "ping = ''*1'' @ [CR, LF] @ ''$4'' @ [CR, LF] @ ''PING'' @ [CR, LF]"

definition pong :: bytes where
  "pong = ''+PONG'' @ [CR, LF]"

definition quiet :: env where
  "quiet = \<lparr>e_read = ReadBytes [], e_writev = [], e_ctl = (\<lambda>f. 0), e_socket = 6,
            e_fcntl = True, e_host = True, e_connect = (- 1, EINPROGRESS),
            e_accept = [], e_accept_errno = EAGAIN\<rparr>"

definition client_A :: Client where
  "client_A = \<lparr>fd = 7, interest = EPOLLIN OR EPOLLET OR EPOLLRDHUP, buffer = ping, peer = Some 2\<rparr>"

definition client_B :: Client where
  "client_B = \<lparr>fd = 8, interest = EPOLLIN OR EPOLLET OR EPOLLRDHUP, buffer = ping, peer = Some 2\<rparr>"

definition upstream :: Server where
  "upstream = \<lparr>fd = 6, interest = EPOLLIN OR EPOLLOUT OR EPOLLET, s_buffer = [],
               clients = [Some 0, Some 1], ready_clients = []\<rparr>"

definition staged :: Proxy where
  "staged = \<lparr>server_conn = Some (2, upstream), client_heap = [0 \<mapsto> client_A, 1 \<mapsto> client_B],
             next_addr = 3, syslog = []\<rparr>"

definition in_flight :: Proxy where
  "in_flight = \<lparr>server_conn = Some (2, upstream\<lparr>clients := [], ready_clients := [Some 0, Some 1],
                                                  interest := EPOLLIN OR EPOLLET\<rparr>),
                client_heap = [0 \<mapsto> client_A, 1 \<mapsto> client_B],
                next_addr = 3, syslog = [Writev 6 [ping, ping] 28]\<rparr>"

definition two_replies :: env where
  "two_replies = quiet\<lparr>e_read := ReadBytes (pong @ ''$-1'' @ [CR, LF])\<rparr>"

text \<open>
  Scenario S4: the upstream's reply arrives as \<open>+PO\<close> and then the rest, here followed
  by the first bytes of a further reply. A read that brings three replies.
\<close>

definition partial_reply :: env where
  "partial_reply = quiet\<lparr>e_read := ReadBytes ''+PO''\<rparr>"

definition rest_of_replies :: env where
  "rest_of_replies = quiet\<lparr>e_read := ReadBytes (''NG'' @ [CR, LF] @ pong @ ''+P'')\<rparr>"

definition three_replies :: env where
  "three_replies = quiet\<lparr>e_read := ReadBytes (pong @ pong @ pong)\<rparr>"

text \<open>
  One client is accepted on descriptor 7 and sends a request; the upstream (descriptor 6)
  becomes writable and the request goes out; the client sends a second request before
  the reply to the first has come.
\<close>

definition pipelined_trace :: "event list" where
  "pipelined_trace =
     [AcceptorEv (quiet\<lparr>e_accept := [7]\<rparr>),
      ClientEv 0 EPOLLIN (quiet\<lparr>e_read := ReadBytes ping\<rparr>),
      ServerEv EPOLLOUT (quiet\<lparr>e_writev := [(14, 0)]\<rparr>),
      ClientEv 0 EPOLLIN (quiet\<lparr>e_read := ReadBytes ping\<rparr>)]"

definition pipelined :: Proxy where
  "pipelined =
     \<lparr>server_conn = Some (1, \<lparr>fd = 6, interest = EPOLLIN OR EPOLLOUT OR EPOLLET, s_buffer = [],
                              clients = [Some 0], ready_clients = [Some 0]\<rparr>),
      client_heap = [0 \<mapsto> \<lparr>fd = 7, interest = EPOLLIN OR EPOLLET OR EPOLLRDHUP,
                            buffer = ping @ ping, peer = Some 1\<rparr>],
      next_addr = 2, syslog = [Writev 6 [ping] 14]\<rparr>"

text \<open>
  One client is accepted on descriptor 7, sends two requests on two readable edges
  before the upstream (descriptor 6) becomes writable, and then hangs up. The state that
  results has no client left, and the dead client's address still in staging.
\<close>

definition twice_staged_trace :: "event list" where
  "twice_staged_trace =
     [AcceptorEv (quiet\<lparr>e_accept := [7]\<rparr>),
      ClientEv 0 EPOLLIN (quiet\<lparr>e_read := ReadBytes ping\<rparr>),
      ClientEv 0 EPOLLIN (quiet\<lparr>e_read := ReadBytes ping\<rparr>),
      ClientEv 0 (EPOLLIN OR EPOLLRDHUP) quiet]"

definition orphan_staged :: Proxy where
  "orphan_staged =
     \<lparr>server_conn = Some (1, \<lparr>fd = 6, interest = EPOLLIN OR EPOLLOUT OR EPOLLET, s_buffer = [],
                              clients = [Some 0], ready_clients = []\<rparr>),
      client_heap = Map.empty, next_addr = 2, syslog = []\<rparr>"

section \<open>Evaluation\<close>

lemmas scen = ping_def pong_def quiet_def client_A_def client_B_def upstream_def staged_def
  in_flight_def two_replies_def CR_def LF_def

lemmas kconsts = EPOLLIN_def EPOLLOUT_def EPOLLET_def EPOLLRDHUP_def EINTR_def EAGAIN_def
  EPROTO_def ECONNABORTED_def EINPROGRESS_def

lemmas handlers = Server__send_to_def Server__recv_from_def Client__send_to_def
  Client__recv_from_def Client_triggered_def Server_triggered_def connect_to_def accept_from_def
  accept_done_def delete_Client_def delete_Server_def shut_client_def shut_server_def
  pop_client_def pop_client_from_def push_client_def replace_def erase_def Buffer_read_def
  Buffer_write_def Buffer_clear_def truncate_from_begin_def buffer_ready_def Buffer_size_def
  copy_from_def range_bytes_def Proxy_init_def

text \<open>The states of the scenarios are reached from the initial proxy.\<close>

lemma staged_reachable:
  "run resp_split
     [AcceptorEv (quiet\<lparr>e_accept := [7, 8]\<rparr>),
      ClientEv 0 EPOLLIN (quiet\<lparr>e_read := ReadBytes ping\<rparr>),
      ClientEv 1 EPOLLIN (quiet\<lparr>e_read := ReadBytes ping\<rparr>)] Proxy_init = Inr staged"
  by (simp add: scen kconsts handlers Let_def numeral_2_eq_2 [symmetric] numeral_3_eq_3 [symmetric])

lemma in_flight_reachable:
  "Server_triggered resp_split EPOLLOUT (quiet\<lparr>e_writev := [(28, 0)]\<rparr>) staged = Inr in_flight"
  by (simp add: scen kconsts handlers Let_def)

section \<open>\<open>pop_client\<close>\<close>

lemma erase_find_if: "erase (find_if (\<lambda>c. c = x) cs) cs = remove1 x cs"
  by (induction cs) (auto simp: erase_def)

lemma pop_client_from_remove1: "pop_client_from cs cli = remove1 (Some cli) cs"
proof -
  let ?i = "find_if (\<lambda>c. c = Some cli) cs"
  have "erase ?i cs = remove1 (Some cli) cs" by (rule erase_find_if)
  moreover have "?i = length cs \<Longrightarrow> erase ?i cs = cs" by (simp add: erase_def)
  ultimately show ?thesis by (auto simp: pop_client_from_def Let_def)
qed

lemma remove1_split_first:
  "x \<in> set xs \<Longrightarrow> \<exists>ys zs. xs = ys @ x # zs \<and> x \<notin> set ys \<and> remove1 x xs = ys @ zs"
proof (induction xs)
  case Nil
  then show ?case by simp
next
  case (Cons y xs)
  show ?case
  proof (cases "y = x")
    case True
    then have "y # xs = [] @ x # xs \<and> x \<notin> set [] \<and> remove1 x (y # xs) = [] @ xs" by simp
    then show ?thesis by blast
  next
    case False
    with Cons obtain ys zs where "xs = ys @ x # zs" "x \<notin> set ys" "remove1 x xs = ys @ zs"
      by auto
    with False have "y # xs = (y # ys) @ x # zs \<and> x \<notin> set (y # ys) \<and> remove1 x (y # xs) = (y # ys) @ zs"
      by auto
    then show ?thesis by blast
  qed
qed

lemma count_list_remove1:
  "count_list (remove1 x xs) x = count_list xs x - 1"
  by (induction xs) auto

text \<open>
  What \<open>pop_client(c)\<close> does: it erases from staging the element that \<open>find_if\<close> finds,
  the first occurrence of c (staging is unchanged when c is absent), and in pending it
  writes \<open>nullptr\<close> over every c where it stands, so that pending keeps its length and
  every position keeps its entry unless that entry was c.
\<close>

lemma pop_client_effect:
  "clients (pop_client c s) = remove1 (Some c) (clients s) \<and>
   (Some c \<notin> set (clients s) \<longrightarrow> clients (pop_client c s) = clients s) \<and>
   length (ready_clients (pop_client c s)) = length (ready_clients s) \<and>
   (\<forall>i < length (ready_clients s).
       ready_clients (pop_client c s) ! i =
         (if ready_clients s ! i = Some c then None else ready_clients s ! i))"
  by (simp add: pop_client_def pop_client_from_remove1 replace_def remove1_idem)

text \<open>
  Claim C6 (the code departs from it). The part about pending holds as stated (the
  lemma above): c becomes \<open>nullptr\<close> in place, nothing shifts. The part about staging
  does not: \<open>pop_client_from\<close> erases one element only, so a client that was pushed on
  two readable edges is still in staging after \<open>pop_client\<close>. After the events of
  \<open>twice_staged_trace\<close> client 0 has been deleted, its address is still staged, and the
  upstream's next \<open>_send_to\<close> reads the buffer of the deleted client.
\<close>

theorem pop_client_leaves_dead_client_staged:
  "clients (pop_client 0 (upstream\<lparr>clients := [Some 0, Some 0]\<rparr>)) = [Some 0] \<and>
   run resp_split twice_staged_trace Proxy_init = Inr orphan_staged \<and>
   client_heap orphan_staged 0 = None \<and>
   map_option (clients \<circ> snd) (server_conn orphan_staged) = Some [Some 0] \<and>
   Server__send_to (quiet\<lparr>e_writev := [(28, 0)]\<rparr>) orphan_staged = Inl UseAfterFree"
proof -
  have a: "clients (pop_client 0 (upstream\<lparr>clients := [Some 0, Some 0]\<rparr>)) = [Some 0]"
    by (simp add: pop_client_def pop_client_from_def erase_def Let_def)
  have b: "run resp_split twice_staged_trace Proxy_init = Inr orphan_staged"
    by (simp add: twice_staged_trace_def orphan_staged_def scen kconsts handlers Let_def
          numeral_2_eq_2 [symmetric])
  have c: "client_heap orphan_staged 0 = None"
    "map_option (clients \<circ> snd) (server_conn orphan_staged) = Some [Some 0]"
    by (simp_all add: orphan_staged_def)
  have d: "Server__send_to (quiet\<lparr>e_writev := [(28, 0)]\<rparr>) orphan_staged = Inl UseAfterFree"
    by (simp add: orphan_staged_def Server__send_to_def Let_def)
  from a b c d show ?thesis by simp
qed

text \<open>
  Claim C10. When c stands n times in staging, with n at least 2, one \<open>pop_client(c)\<close>
  takes out the first occurrence only: n - 1 occurrences stay, so c is still in staging.
  In pending every occurrence of c becomes \<open>nullptr\<close>.
\<close>

theorem pop_client_first_occurrence_only:
  assumes "2 \<le> count_list (clients s) (Some c)"
  shows "count_list (clients (pop_client c s)) (Some c) = count_list (clients s) (Some c) - 1 \<and>
         (\<exists>ys zs. clients s = ys @ Some c # zs \<and> Some c \<notin> set ys \<and> clients (pop_client c s) = ys @ zs) \<and>
         Some c \<in> set (clients (pop_client c s)) \<and>
         Some c \<notin> set (ready_clients (pop_client c s)) \<and>
         ready_clients (pop_client c s) = map (\<lambda>x. if x = Some c then None else x) (ready_clients s)"
proof -
  have st: "clients (pop_client c s) = remove1 (Some c) (clients s)"
    by (simp add: pop_client_def pop_client_from_remove1)
  have mem: "Some c \<in> set (clients s)"
    using assms by (metis count_list_0_iff not_numeral_le_zero)
  have cnt: "count_list (clients (pop_client c s)) (Some c) = count_list (clients s) (Some c) - 1"
    by (simp add: st count_list_remove1)
  have still: "Some c \<in> set (clients (pop_client c s))"
    using cnt assms by (metis count_list_0_iff diff_is_0_eq not_less_eq_eq numeral_2_eq_2 one_add_one plus_1_eq_Suc le_trans)
  have rc: "ready_clients (pop_client c s) = map (\<lambda>x. if x = Some c then None else x) (ready_clients s)"
    by (simp add: pop_client_def replace_def)
  have gone: "Some c \<notin> set (ready_clients (pop_client c s))"
    by (auto simp: rc)
  from remove1_split_first [OF mem] st cnt still rc gone show ?thesis by auto
qed

theorem pop_client_first_occurrence_only_witness:
  "2 \<le> count_list (clients (upstream\<lparr>clients := [Some 0, Some 1, Some 0],
                                         ready_clients := [Some 0, Some 1, Some 0]\<rparr>)) (Some 0) \<and>
   clients (pop_client 0 (upstream\<lparr>clients := [Some 0, Some 1, Some 0],
                                    ready_clients := [Some 0, Some 1, Some 0]\<rparr>)) = [Some 1, Some 0] \<and>
   ready_clients (pop_client 0 (upstream\<lparr>clients := [Some 0, Some 1, Some 0],
                                          ready_clients := [Some 0, Some 1, Some 0]\<rparr>))
     = [None, Some 1, None]"
proof -
  let ?s = "upstream\<lparr>clients := [Some 0, Some 1, Some 0], ready_clients := [Some 0, Some 1, Some 0]\<rparr>"
  have h: "2 \<le> count_list (clients ?s) (Some 0)"
    by simp
  from pop_client_first_occurrence_only [OF h] obtain ys zs where
    d: "clients ?s = ys @ Some 0 # zs" "Some 0 \<notin> set ys" "clients (pop_client 0 ?s) = ys @ zs"
    and r: "ready_clients (pop_client 0 ?s) = map (\<lambda>x. if x = Some 0 then None else x) (ready_clients ?s)"
    by blast
  from d(1,2) have "ys = []" by (cases ys) auto
  with d(1,3) have "clients (pop_client 0 ?s) = [Some 1, Some 0]" by simp
  with h r show ?thesis by simp
qed

section \<open>The upstream's \<open>_send_to\<close>\<close>

lemma writev_loop_calls:
  "writev_loop f iov n answers = Inr calls \<Longrightarrow>
     calls \<noteq> [] \<and> last calls = Writev f iov n \<and> length calls \<le> length answers"
proof (induction answers arbitrary: calls)
  case Nil
  then show ?case by simp
next
  case (Cons x answers)
  obtain nwrite errno where x: "x = (nwrite, errno)" by (cases x)
  show ?case
  proof (cases "nwrite \<le> 0 \<and> errno = EAGAIN")
    case True
    with Cons.prems x obtain cs where cs: "writev_loop f iov n answers = Inr cs"
      and calls: "calls = Writev f iov nwrite # cs"
      by (auto split: sum.splits)
    from Cons.IH [OF cs] calls show ?thesis by simp
  next
    case False
    with Cons.prems x show ?thesis by (auto split: if_splits)
  qed
qed

lemma gather_iov:
  "gather h cs iov0 n0 = Inr (iov, n) \<Longrightarrow>
     \<exists>bs. iov = iov0 @ bs \<and>
          list_all2 (\<lambda>c b. \<exists>a cli. c = Some a \<and> h a = Some cli \<and> buffer cli = b) cs bs \<and>
          n = n0 + int (length (concat bs))"
proof (induction h cs iov0 n0 rule: gather.induct)
  case (1 h iov n)
  then show ?case by simp
next
  case (2 h cs iov n)
  then show ?case by simp
next
  case (3 h a cs iov0 n0)
  from "3.prems" obtain cli where cli: "h a = Some cli"
    and g: "gather h cs (buffer_ready (buffer cli) iov0) (n0 + int (Buffer_size (buffer cli))) = Inr (iov, n)"
    by (auto split: option.splits)
  from "3.IH" [OF cli g] obtain bs where
    bs: "iov = buffer_ready (buffer cli) iov0 @ bs"
        "list_all2 (\<lambda>c b. \<exists>a cli. c = Some a \<and> h a = Some cli \<and> buffer cli = b) cs bs"
        "n = n0 + int (Buffer_size (buffer cli)) + int (length (concat bs))"
    by blast
  have "iov = iov0 @ (buffer cli # bs)"
    using bs(1) by (simp add: buffer_ready_def)
  moreover have "list_all2 (\<lambda>c b. \<exists>a cli. c = Some a \<and> h a = Some cli \<and> buffer cli = b)
                   (Some a # cs) (buffer cli # bs)"
    using bs(2) cli by simp
  moreover have "n = n0 + int (length (concat (buffer cli # bs)))"
    using bs(3) by (simp add: Buffer_size_def)
  ultimately show ?case by blast
qed

lemma Server__send_to_skip:
  "server_conn p = Some (sa, s) \<Longrightarrow> clients s = [] \<or> ready_clients s \<noteq> [] \<Longrightarrow>
     Server__send_to ev p = Inr p"
  by (auto simp: Server__send_to_def)

lemma Server__send_to_acts:
  assumes "server_conn p = Some (sa, s)" "clients s \<noteq> []" "ready_clients s = []"
    and "Server__send_to ev p = Inr p'"
  shows "\<exists>iov n calls.
           gather (client_heap p) (clients s) [] 0 = Inr (iov, n) \<and>
           writev_loop (fd s) iov n (e_writev ev) = Inr calls \<and>
           e_ctl ev (fd s) \<noteq> - 1 \<and>
           p' = p\<lparr>server_conn := Some (sa, s\<lparr>ready_clients := clients s, clients := [],
                                              interest := EPOLLIN OR EPOLLET\<rparr>),
                  syslog := syslog p @ calls\<rparr>"
  using assms
  by (auto simp: Server__send_to_def Let_def split: sum.splits if_splits)

lemma Server__send_to_returns:
  assumes "server_conn p = Some (sa, s)" "clients s \<noteq> []" "ready_clients s = []"
    and "gather (client_heap p) (clients s) [] 0 = Inr (iov, n)"
    and "writev_loop (fd s) iov n (e_writev ev) = Inr calls"
    and "e_ctl ev (fd s) \<noteq> - 1"
  shows "Server__send_to ev p =
           Inr (p\<lparr>server_conn := Some (sa, s\<lparr>ready_clients := clients s, clients := [],
                                              interest := EPOLLIN OR EPOLLET\<rparr>),
                  syslog := syslog p @ calls\<rparr>)"
  using assms by (simp add: Server__send_to_def Let_def)

text \<open>
  Claim C3. With an upstream session present, \<open>_send_to\<close> returns with the proxy as it
  was (same staging, pending and interest mask, no \<open>writev\<close> logged) exactly when staging is
  empty or pending is not. When neither guard holds and the handler returns, staging has
  become pending and is empty, at least one \<open>writev\<close> was issued, the last one over the
  buffers of the clients in pending order, and the upstream's interest is
  \<open>EPOLLIN | EPOLLET\<close>: readable only.
\<close>

theorem send_to_noop_iff_guards:
  assumes "server_conn p = Some (sa, s)"
  shows "((Server__send_to ev p = Inr p) = (clients s = [] \<or> ready_clients s \<noteq> [])) \<and>
         (clients s \<noteq> [] \<and> ready_clients s = [] \<and> Server__send_to ev p = Inr p' \<longrightarrow>
            (\<exists>s' iov n calls.
               server_conn p' = Some (sa, s') \<and>
               clients s' = [] \<and> ready_clients s' = clients s \<and>
               interest s' = EPOLLIN OR EPOLLET \<and>
               interest s' AND EPOLLOUT = 0 \<and> interest s' AND EPOLLRDHUP = 0 \<and>
               fd s' = fd s \<and> s_buffer s' = s_buffer s \<and>
               syslog p' = syslog p @ calls \<and> calls \<noteq> [] \<and> last calls = Writev (fd s) iov n \<and>
               list_all2 (\<lambda>c b. \<exists>a cli. c = Some a \<and> client_heap p a = Some cli \<and> buffer cli = b)
                  (ready_clients s') iov)) \<and>
         (clients s \<noteq> [] \<and> ready_clients s = [] \<and>
          gather (client_heap p) (clients s) [] 0 = Inr (iov0, n0) \<and>
          writev_loop (fd s) iov0 n0 (e_writev ev) = Inr calls0 \<and> e_ctl ev (fd s) \<noteq> - 1 \<longrightarrow>
            (\<exists>q. Server__send_to ev p = Inr q))"
proof -
  have ret: "\<exists>q. Server__send_to ev p = Inr q"
    if "clients s \<noteq> []" "ready_clients s = []"
       "gather (client_heap p) (clients s) [] 0 = Inr (iov0, n0)"
       "writev_loop (fd s) iov0 n0 (e_writev ev) = Inr calls0" "e_ctl ev (fd s) \<noteq> - 1"
    using Server__send_to_returns [OF assms that] by blast
  have noop: "clients s = [] \<or> ready_clients s \<noteq> [] \<Longrightarrow> Server__send_to ev p = Inr p"
    using assms by (rule Server__send_to_skip)
  have changed: "Server__send_to ev p \<noteq> Inr p" if g: "clients s \<noteq> []" "ready_clients s = []"
  proof
    assume same: "Server__send_to ev p = Inr p"
    from Server__send_to_acts [OF assms g same] obtain calls where
      "p = p\<lparr>server_conn := Some (sa, s\<lparr>ready_clients := clients s, clients := [],
                                              interest := EPOLLIN OR EPOLLET\<rparr>),
                  syslog := syslog p @ calls\<rparr>" by blast
    then have "server_conn p = server_conn (p\<lparr>server_conn := Some (sa, s\<lparr>ready_clients := clients s,
                 clients := [], interest := EPOLLIN OR EPOLLET\<rparr>), syslog := syslog p @ calls\<rparr>)"
      by (rule arg_cong)
    with assms have "s = s\<lparr>ready_clients := clients s, clients := [], interest := EPOLLIN OR EPOLLET\<rparr>"
      by simp
    then have "ready_clients s = ready_clients (s\<lparr>ready_clients := clients s, clients := [],
                 interest := EPOLLIN OR EPOLLET\<rparr>)"
      by (rule arg_cong)
    then have "ready_clients s = clients s" by simp
    with g show False by simp
  qed
  have act: "\<exists>s' iov n calls.
               server_conn p' = Some (sa, s') \<and>
               clients s' = [] \<and> ready_clients s' = clients s \<and>
               interest s' = EPOLLIN OR EPOLLET \<and>
               interest s' AND EPOLLOUT = 0 \<and> interest s' AND EPOLLRDHUP = 0 \<and>
               fd s' = fd s \<and> s_buffer s' = s_buffer s \<and>
               syslog p' = syslog p @ calls \<and> calls \<noteq> [] \<and> last calls = Writev (fd s) iov n \<and>
               list_all2 (\<lambda>c b. \<exists>a cli. c = Some a \<and> client_heap p a = Some cli \<and> buffer cli = b)
                  (ready_clients s') iov"
    if g: "clients s \<noteq> []" "ready_clients s = []" and r: "Server__send_to ev p = Inr p'"
  proof -
    from Server__send_to_acts [OF assms g r] obtain iov n calls where
      ga: "gather (client_heap p) (clients s) [] 0 = Inr (iov, n)" and
      wl: "writev_loop (fd s) iov n (e_writev ev) = Inr calls" and
      p': "p' = p\<lparr>server_conn := Some (sa, s\<lparr>ready_clients := clients s, clients := [],
                                              interest := EPOLLIN OR EPOLLET\<rparr>),
                  syslog := syslog p @ calls\<rparr>" by blast
    let ?s' = "s\<lparr>ready_clients := clients s, clients := [], interest := EPOLLIN OR EPOLLET\<rparr>"
    from gather_iov [OF ga] have la:
      "list_all2 (\<lambda>c b. \<exists>a cli. c = Some a \<and> client_heap p a = Some cli \<and> buffer cli = b) (clients s) iov"
      by auto
    have m: "(EPOLLIN OR EPOLLET) AND EPOLLOUT = 0" "(EPOLLIN OR EPOLLET) AND EPOLLRDHUP = 0"
      by (simp_all add: EPOLLIN_def EPOLLET_def EPOLLOUT_def EPOLLRDHUP_def)
    have "server_conn p' = Some (sa, ?s') \<and>
               clients ?s' = [] \<and> ready_clients ?s' = clients s \<and>
               interest ?s' = EPOLLIN OR EPOLLET \<and>
               interest ?s' AND EPOLLOUT = 0 \<and> interest ?s' AND EPOLLRDHUP = 0 \<and>
               fd ?s' = fd s \<and> s_buffer ?s' = s_buffer s \<and>
               syslog p' = syslog p @ calls \<and> calls \<noteq> [] \<and> last calls = Writev (fd s) iov n \<and>
               list_all2 (\<lambda>c b. \<exists>a cli. c = Some a \<and> client_heap p a = Some cli \<and> buffer cli = b)
                  (ready_clients ?s') iov"
      using p' la m writev_loop_calls [OF wl] by simp
    then show ?thesis by blast
  qed
  from noop changed act ret show ?thesis by blast
qed

theorem send_to_noop_iff_guards_witness:
  "(Server__send_to (quiet\<lparr>e_writev := [(28, 0)]\<rparr>) staged \<noteq> Inr staged) \<and>
   (Server__send_to (quiet\<lparr>e_writev := [(28, 0)]\<rparr>) in_flight = Inr in_flight) \<and>
   Server__send_to (quiet\<lparr>e_writev := [(28, 0)]\<rparr>) staged = Inr in_flight \<and>
   (\<exists>s'. server_conn in_flight = Some (2, s') \<and> clients s' = [] \<and>
         ready_clients s' = clients upstream \<and> interest s' = EPOLLIN OR EPOLLET)"
proof -
  let ?ev = "quiet\<lparr>e_writev := [(28, 0)]\<rparr>"
  let ?s = "upstream\<lparr>clients := [], ready_clients := [Some 0, Some 1], interest := EPOLLIN OR EPOLLET\<rparr>"
  have a: "server_conn staged = Some (2, upstream)" by (simp add: staged_def)
  have b: "server_conn in_flight = Some (2, ?s)" by (simp add: in_flight_def)
  have r: "Server__send_to ?ev staged = Inr in_flight"
    by (simp add: scen kconsts handlers Let_def)
  have g: "clients upstream \<noteq> [] \<and> ready_clients upstream = [] \<and> Server__send_to ?ev staged = Inr in_flight"
    using r by (simp add: upstream_def)
  have n: "clients ?s = [] \<or> ready_clients ?s \<noteq> []" by simp
  from send_to_noop_iff_guards [OF a, of ?ev in_flight] g
  have "Server__send_to ?ev staged \<noteq> Inr staged"
    and "\<exists>s'. server_conn in_flight = Some (2, s') \<and> clients s' = [] \<and>
              ready_clients s' = clients upstream \<and> interest s' = EPOLLIN OR EPOLLET"
    by blast+
  moreover from send_to_noop_iff_guards [OF b, of ?ev in_flight] n
  have "Server__send_to ?ev in_flight = Inr in_flight" by blast
  ultimately show ?thesis using r by blast
qed

lemma Server__send_to_client_heap:
  "Server__send_to ev p = Inr p' \<Longrightarrow> client_heap p' = client_heap p"
  by (auto simp: Server__send_to_def Let_def split: option.splits sum.splits prod.splits if_splits)

text \<open>
  Claim C5 (the code departs from it). After the \<open>writev\<close> of \<open>_send_to\<close> has
  succeeded, the buffers of the clients that contributed are what they were (no call of
  \<open>_send_to\<close> changes any client, by the lemma above): here both still hold the request.
  \<open>Client::_send_to\<close> clears the buffer it has written; the upstream's \<open>_send_to\<close> does
  not.
\<close>

theorem send_to_keeps_request_bytes:
  "Server__send_to (quiet\<lparr>e_writev := [(28, 0)]\<rparr>) staged = Inr in_flight \<and>
   map_option buffer (client_heap in_flight 0) = Some ping \<and>
   map_option buffer (client_heap in_flight 1) = Some ping \<and> ping \<noteq> []"
  by (simp add: scen kconsts handlers Let_def)

section \<open>Hang-up\<close>

text \<open>
  Claim C8. When the mask of an event has \<open>EPOLLRDHUP\<close> set, whatever else it has,
  \<open>Client::triggered\<close> and \<open>Server::triggered\<close> delete the session and return: the result
  does not depend on what the environment would have answered to a read or a write, the
  session is gone, no write call is logged, and no other client and no upstream buffer
  has changed.
\<close>

theorem hangup_deletes_before_any_io:
  assumes "events AND EPOLLRDHUP \<noteq> 0"
  shows "Client_triggered events ev a p = Inr (delete_Client a p) \<and>
         Server_triggered split events ev p = Inr (delete_Server p) \<and>
         client_heap (delete_Client a p) a = None \<and>
         (\<forall>b. b \<noteq> a \<longrightarrow> client_heap (delete_Client a p) b = client_heap p b) \<and>
         map_option (s_buffer \<circ> snd) (server_conn (delete_Client a p)) = map_option (s_buffer \<circ> snd) (server_conn p) \<and>
         syslog (delete_Client a p) = syslog p \<and>
         server_conn (delete_Server p) = None \<and>
         client_heap (delete_Server p) = client_heap p \<and>
         syslog (delete_Server p) = syslog p"
  using assms
  by (auto simp: Client_triggered_def Server_triggered_def delete_Client_def delete_Server_def
        shut_client_def shut_server_def pop_client_def Let_def split: option.splits)

theorem hangup_deletes_before_any_io_witness:
  "(EPOLLIN OR EPOLLOUT OR EPOLLRDHUP) AND EPOLLRDHUP \<noteq> 0 \<and>
   Client_triggered (EPOLLIN OR EPOLLOUT OR EPOLLRDHUP) (quiet\<lparr>e_read := ReadBytes ping\<rparr>) 0 in_flight
     = Inr (delete_Client 0 in_flight) \<and>
   Server_triggered resp_split (EPOLLIN OR EPOLLOUT OR EPOLLRDHUP) (quiet\<lparr>e_read := ReadBytes pong\<rparr>) in_flight
     = Inr (delete_Server in_flight) \<and>
   client_heap (delete_Client 0 in_flight) 0 = None \<and>
   syslog (delete_Client 0 in_flight) = syslog in_flight \<and>
   server_conn (delete_Server in_flight) = None"
proof -
  have h: "(EPOLLIN OR EPOLLOUT OR EPOLLRDHUP) AND EPOLLRDHUP \<noteq> 0"
    by (simp add: kconsts)
  from hangup_deletes_before_any_io [OF h, of "quiet\<lparr>e_read := ReadBytes ping\<rparr>" 0 in_flight resp_split] 
       hangup_deletes_before_any_io [OF h, of "quiet\<lparr>e_read := ReadBytes pong\<rparr>" 0 in_flight resp_split] h
  show ?thesis by simp
qed

section \<open>The upstream's \<open>_recv_from\<close>\<close>

lemma routed_Nil [simp]: "routed b v [] a = []"
  by (simp add: routed_def)

lemma routed_Cons [simp]:
  "routed b (c # v) (r # rs) a = (if c = Some a then range_bytes b r else []) @ routed b v rs a"
  by (simp add: routed_def)

lemma copy_messages_result:
  assumes "client_it + length rs \<le> length v"
    and "\<forall>a. Some a \<in> set (take (length rs) (drop client_it v)) \<longrightarrow> a \<in> dom h"
  shows "copy_messages v client_it b rs h =
           Inr (client_it + length rs,
                \<lambda>a. map_option (\<lambda>c. c\<lparr>buffer := buffer c @ routed b (drop client_it v) rs a\<rparr>) (h a))"
  using assms
proof (induction rs arbitrary: client_it h)
  case Nil
  have "(\<lambda>a. map_option (\<lambda>c. c) (h a)) = h"
    by (simp add: option.map_ident)
  then show ?case by simp
next
  case (Cons r rs)
  from Cons.prems(1) have lt: "client_it < length v" and le: "Suc client_it + length rs \<le> length v"
    by simp_all
  have dr: "drop client_it v = v ! client_it # drop (Suc client_it) v"
    using lt by (simp add: Cons_nth_drop_Suc)
  show ?case
  proof (cases "v ! client_it")
    case None
    have live: "\<forall>a. Some a \<in> set (take (length rs) (drop (Suc client_it) v)) \<longrightarrow> a \<in> dom h"
      using Cons.prems(2) dr by simp
    from Cons.IH [OF le live] lt None dr show ?thesis by simp
  next
    case (Some a0)
    from Cons.prems(2) dr Some obtain cli where cli: "h a0 = Some cli"
      by auto
    let ?h1 = "h(a0 \<mapsto> cli\<lparr>buffer := copy_from (buffer cli) (range_bytes b r)\<rparr>)"
    have live: "\<forall>a. Some a \<in> set (take (length rs) (drop (Suc client_it) v)) \<longrightarrow> a \<in> dom ?h1"
      using Cons.prems(2) dr by simp
    have eq: "(\<lambda>a. map_option (\<lambda>c. c\<lparr>buffer := buffer c @ routed b (drop (Suc client_it) v) rs a\<rparr>) (?h1 a))
            = (\<lambda>a. map_option (\<lambda>c. c\<lparr>buffer := buffer c @ routed b (drop client_it v) (r # rs) a\<rparr>) (h a))"
      using cli Some dr by (auto simp: fun_eq_iff copy_from_def)
    have step: "copy_messages v client_it b (r # rs) h = copy_messages v (Suc client_it) b rs ?h1"
      using lt Some cli by simp
    have "copy_messages v client_it b (r # rs) h =
            Inr (Suc client_it + length rs,
                 \<lambda>a. map_option (\<lambda>c. c\<lparr>buffer := buffer c @ routed b (drop client_it v) (r # rs) a\<rparr>) (h a))"
      unfolding step Cons.IH [OF le live] eq by (rule refl)
    then show ?thesis by simp
  qed
qed

lemma notify_each_result:
  assumes "\<forall>a. Some a \<in> set cs \<longrightarrow> (\<exists>c. h a = Some c \<and> e_ctl ev (fd c) \<noteq> - 1)"
  shows "notify_each ev cs h =
           Inr (\<lambda>a. if Some a \<in> set cs
                    then map_option (\<lambda>c. c\<lparr>interest := EPOLLIN OR EPOLLOUT OR EPOLLET\<rparr>) (h a)
                    else h a)"
  using assms
proof (induction ev cs h rule: notify_each.induct)
  case (1 ev h)
  then show ?case by simp
next
  case (2 ev cs h)
  then show ?case by simp
next
  case (3 ev a0 cs h)
  from "3.prems" obtain cli where cli: "h a0 = Some cli" and ok: "e_ctl ev (fd cli) \<noteq> - 1"
    by auto
  let ?h1 = "h(a0 \<mapsto> cli\<lparr>interest := EPOLLIN OR EPOLLOUT OR EPOLLET\<rparr>)"
  have pre: "\<forall>a. Some a \<in> set cs \<longrightarrow> (\<exists>c. ?h1 a = Some c \<and> e_ctl ev (fd c) \<noteq> - 1)"
    using "3.prems" cli ok by auto
  have ih: "notify_each ev cs ?h1 =
           Inr (\<lambda>a. if Some a \<in> set cs
                    then map_option (\<lambda>c. c\<lparr>interest := EPOLLIN OR EPOLLOUT OR EPOLLET\<rparr>) (?h1 a)
                    else ?h1 a)"
    using ok by (intro "3.IH" [OF cli _ pre]) simp
  have step: "notify_each ev (Some a0 # cs) h = notify_each ev cs ?h1"
    using cli ok by simp
  have eq: "(\<lambda>a. if Some a \<in> set cs
                    then map_option (\<lambda>c. c\<lparr>interest := EPOLLIN OR EPOLLOUT OR EPOLLET\<rparr>) (?h1 a)
                    else ?h1 a)
      = (\<lambda>a. if Some a \<in> set (Some a0 # cs)
                    then map_option (\<lambda>c. c\<lparr>interest := EPOLLIN OR EPOLLOUT OR EPOLLET\<rparr>) (h a)
                    else h a)"
    using cli by (auto simp: fun_eq_iff)
  show ?case unfolding step ih eq by (rule refl)
qed

lemma Server__recv_from_delivers:
  assumes sc: "server_conn p = Some (sa, s)"
    and rd: "e_read ev = ReadBytes d" "d \<noteq> []"
    and sp: "split (s_buffer s @ d) = Some m"
    and le: "length (ranges m) \<le> length (ready_clients s)"
    and live: "\<forall>a. Some a \<in> set (take (length (ranges m)) (ready_clients s)) \<longrightarrow>
                  (\<exists>c. client_heap p a = Some c \<and> e_ctl ev (fd c) \<noteq> - 1)"
    and ctl: "e_ctl ev (fd s) \<noteq> - 1"
  shows "Server__recv_from split ev p =
           Inr (p\<lparr>server_conn := Some (sa,
                     s\<lparr>s_buffer := (if finished m then [] else drop (interrupt_point m) (s_buffer s @ d)),
                       ready_clients := drop (length (ranges m)) (ready_clients s),
                       interest := EPOLLIN OR EPOLLOUT OR EPOLLET\<rparr>),
                  client_heap := deliver (s_buffer s @ d) (ready_clients s) (ranges m) (client_heap p)\<rparr>)"
proof -
  let ?b = "s_buffer s @ d" and ?v = "ready_clients s" and ?rs = "ranges m" and ?h = "client_heap p"
  let ?hc = "\<lambda>a. map_option (\<lambda>c. c\<lparr>buffer := buffer c @ routed ?b ?v ?rs a\<rparr>) (?h a)"
  have l1: "\<forall>a. Some a \<in> set (take (length ?rs) (drop 0 ?v)) \<longrightarrow> a \<in> dom ?h"
    using live by auto
  have cm: "copy_messages ?v 0 ?b ?rs ?h = Inr (length ?rs, ?hc)"
    using copy_messages_result [of 0 ?rs ?v ?h ?b] le l1 by simp
  have l2: "\<forall>a. Some a \<in> set (take (length ?rs) ?v) \<longrightarrow> (\<exists>c. ?hc a = Some c \<and> e_ctl ev (fd c) \<noteq> - 1)"
    using live by auto
  have ne: "notify_each ev (take (length ?rs) ?v) ?hc =
              Inr (\<lambda>a. if Some a \<in> set (take (length ?rs) ?v)
                    then map_option (\<lambda>c. c\<lparr>interest := EPOLLIN OR EPOLLOUT OR EPOLLET\<rparr>) (?hc a)
                    else ?hc a)"
    by (rule notify_each_result [OF l2])
  have hd: "(\<lambda>a. if Some a \<in> set (take (length ?rs) ?v)
                    then map_option (\<lambda>c. c\<lparr>interest := EPOLLIN OR EPOLLOUT OR EPOLLET\<rparr>) (?hc a)
                    else ?hc a) = deliver ?b ?v ?rs ?h"
    by (auto simp: fun_eq_iff deliver_def option.map_comp comp_def intro!: option.map_cong)
  have n0: "int (length d) \<noteq> 0" using rd(2) by simp
  show ?thesis
    using sc rd(1) n0 sp le cm ne hd ctl
    by (simp add: Server__recv_from_def Buffer_read_def Buffer_clear_def truncate_from_begin_def Let_def)
qed

lemma routed_absent:
  "Some a \<notin> set (take (length rs) v) \<Longrightarrow> routed b v rs a = []"
proof (induction rs arbitrary: v)
  case Nil
  then show ?case by simp
next
  case (Cons r rs)
  then show ?case by (cases v) (auto simp: routed_def)
qed

lemma routed_single:
  assumes "i < length rs" "length rs \<le> length v" "v ! i = Some a"
    and "\<forall>j < length rs. j \<noteq> i \<longrightarrow> v ! j \<noteq> Some a"
  shows "routed b v rs a = range_bytes b (rs ! i)"
  using assms
proof (induction rs arbitrary: v i)
  case Nil
  then show ?case by simp
next
  case (Cons r rs)
  then obtain c v' where v: "v = c # v'" by (cases v) auto
  show ?case
  proof (cases i)
    case 0
    have "\<forall>j < length rs. v' ! j \<noteq> Some a"
      using Cons.prems(4) 0 v by fastforce
    then have "Some a \<notin> set (take (length rs) v')"
      using Cons.prems(2) v by (auto simp: in_set_conv_nth)
    from routed_absent [OF this] Cons.prems(3) 0 v show ?thesis by simp
  next
    case (Suc k)
    have c: "c \<noteq> Some a" using Cons.prems(4) [rule_format, of 0] Suc v by simp
    have "\<forall>j < length rs. j \<noteq> k \<longrightarrow> v' ! j \<noteq> Some a"
    proof (intro allI impI)
      fix j assume "j < length rs" "j \<noteq> k"
      with Cons.prems(4) [rule_format, of "Suc j"] Suc v show "v' ! j \<noteq> Some a" by simp
    qed
    with Cons.IH [of k v'] Cons.prems Suc v c show ?thesis by simp
  qed
qed

text \<open>
  Claim C1. The upstream's \<open>_recv_from\<close> reads a non-empty chunk, the framer yields M
  complete messages, M is at most the length of pending, every live pointer among the
  first M entries of pending is a live client, and \<open>epoll_ctl\<close> succeeds. Then the handler
  returns; pending has lost exactly its first M entries; staging is untouched; and the
  buffer of every client has grown by the messages at the positions where pending holds
  that client, in order. A message at a position holding \<open>nullptr\<close> reaches no buffer:
  a client with no position among the first M gets nothing, and a client standing at
  position i only gets exactly the i-th message.
\<close>

theorem recv_from_routes_replies:
  assumes "server_conn p = Some (sa, s)"
    and "e_read ev = ReadBytes d" "d \<noteq> []"
    and "split (s_buffer s @ d) = Some m"
    and "length (ranges m) \<le> length (ready_clients s)"
    and "\<forall>a. Some a \<in> set (take (length (ranges m)) (ready_clients s)) \<longrightarrow>
                  (\<exists>c. client_heap p a = Some c \<and> e_ctl ev (fd c) \<noteq> - 1)"
    and "e_ctl ev (fd s) \<noteq> - 1"
  shows "\<exists>p' s'. Server__recv_from split ev p = Inr p' \<and> server_conn p' = Some (sa, s') \<and>
           ready_clients s' = drop (length (ranges m)) (ready_clients s) \<and>
           clients s' = clients s \<and>
           dom (client_heap p') = dom (client_heap p) \<and>
           (\<forall>a c. client_heap p a = Some c \<longrightarrow>
               (\<exists>c'. client_heap p' a = Some c' \<and>
                     buffer c' = buffer c @ routed (s_buffer s @ d) (ready_clients s) (ranges m) a)) \<and>
           (\<forall>a. Some a \<notin> set (take (length (ranges m)) (ready_clients s)) \<longrightarrow>
                 routed (s_buffer s @ d) (ready_clients s) (ranges m) a = []) \<and>
           (\<forall>i a. i < length (ranges m) \<and> ready_clients s ! i = Some a \<and>
                  (\<forall>j < length (ranges m). j \<noteq> i \<longrightarrow> ready_clients s ! j \<noteq> Some a) \<longrightarrow>
                  routed (s_buffer s @ d) (ready_clients s) (ranges m) a
                    = range_bytes (s_buffer s @ d) (ranges m ! i))"
proof -
  let ?b = "s_buffer s @ d"
  let ?p' = "p\<lparr>server_conn := Some (sa,
                     s\<lparr>s_buffer := (if finished m then [] else drop (interrupt_point m) ?b),
                       ready_clients := drop (length (ranges m)) (ready_clients s),
                       interest := EPOLLIN OR EPOLLOUT OR EPOLLET\<rparr>),
                  client_heap := deliver ?b (ready_clients s) (ranges m) (client_heap p)\<rparr>"
  have r: "Server__recv_from split ev p = Inr ?p'"
    by (rule Server__recv_from_delivers [where split = split and m = m and d = d, OF assms])
  have d: "dom (client_heap ?p') = dom (client_heap p)"
    by (auto simp: deliver_def dom_def)
  have b: "\<forall>a c. client_heap p a = Some c \<longrightarrow>
               (\<exists>c'. client_heap ?p' a = Some c' \<and>
                     buffer c' = buffer c @ routed ?b (ready_clients s) (ranges m) a)"
    by (simp add: deliver_def)
  have t: "\<forall>a. Some a \<notin> set (take (length (ranges m)) (ready_clients s)) \<longrightarrow>
                 routed ?b (ready_clients s) (ranges m) a = []"
    by (simp add: routed_absent)
  have u: "\<forall>i a. i < length (ranges m) \<and> ready_clients s ! i = Some a \<and>
                  (\<forall>j < length (ranges m). j \<noteq> i \<longrightarrow> ready_clients s ! j \<noteq> Some a) \<longrightarrow>
                  routed ?b (ready_clients s) (ranges m) a = range_bytes ?b (ranges m ! i)"
    using assms(5) by (auto intro: routed_single)
  from r d b t u show ?thesis by simp
qed

theorem recv_from_routes_replies_witness:
  "\<exists>p' s' c0 c1. Server__recv_from resp_split two_replies (delete_Client 0 in_flight) = Inr p' \<and>
       server_conn p' = Some (2, s') \<and> ready_clients s' = [] \<and>
       client_heap p' 0 = None \<and>
       client_heap p' 1 = Some c1 \<and> buffer c1 = ping @ ''$-1'' @ [CR, LF]"
proof -
  let ?p = "delete_Client 0 in_flight"
  let ?s = "upstream\<lparr>clients := [], ready_clients := [None, Some 1], interest := EPOLLIN OR EPOLLET\<rparr>"
  let ?m = "\<lparr>ranges = [(0, 7), (7, 12)], finished = True, interrupt_point = 12\<rparr>"
  have h1: "server_conn ?p = Some (2, ?s)"
    by (simp add: scen handlers Let_def)
  have h2: "e_read two_replies = ReadBytes (pong @ ''$-1'' @ [CR, LF])"
    by (simp add: two_replies_def)
  have h3: "pong @ ''$-1'' @ [CR, LF] \<noteq> []"
    by (simp add: scen)
  have h4: "resp_split (s_buffer ?s @ pong @ ''$-1'' @ [CR, LF]) = Some ?m"
    by (simp add: resp_split_def length_prefix_def scen)
  have h5: "length (ranges ?m) \<le> length (ready_clients ?s)"
    by simp
  have h6: "\<forall>a. Some a \<in> set (take (length (ranges ?m)) (ready_clients ?s)) \<longrightarrow>
                  (\<exists>c. client_heap ?p a = Some c \<and> e_ctl two_replies (fd c) \<noteq> - 1)"
    by (simp add: scen handlers two_replies_def Let_def)
  have h7: "e_ctl two_replies (fd ?s) \<noteq> - 1"
    by (simp add: scen two_replies_def)
  from recv_from_routes_replies [where split = resp_split and m = ?m, OF h1 h2 h3 h4 h5 h6 h7] obtain p' s' where
    r: "Server__recv_from resp_split two_replies ?p = Inr p'" "server_conn p' = Some (2, s')"
       "ready_clients s' = drop (length (ranges ?m)) (ready_clients ?s)"
       "dom (client_heap p') = dom (client_heap ?p)"
       "\<forall>a c. client_heap ?p a = Some c \<longrightarrow>
               (\<exists>c'. client_heap p' a = Some c' \<and>
                     buffer c' = buffer c @ routed (s_buffer ?s @ pong @ ''$-1'' @ [CR, LF]) (ready_clients ?s) (ranges ?m) a)"
    by blast
  have c1: "client_heap ?p 1 = Some client_B"
    by (simp add: scen handlers Let_def)
  from r(5) [rule_format, OF c1] obtain c' where
    c': "client_heap p' 1 = Some c'"
        "buffer c' = buffer client_B @ routed (s_buffer ?s @ pong @ ''$-1'' @ [CR, LF]) (ready_clients ?s) (ranges ?m) 1"
    by blast
  have gone: "client_heap p' 0 = None"
  proof -
    have "0 \<notin> dom (client_heap ?p)" by (simp add: scen handlers Let_def)
    with r(4) show ?thesis by blast
  qed
  have "buffer c' = ping @ ''$-1'' @ [CR, LF]"
    using c'(2) by (simp add: scen range_bytes_def)
  with r(1,2,3) c'(1) gone show ?thesis by simp
qed

lemma contiguous_concat:
  "contiguous start rs stop \<Longrightarrow> stop \<le> length buf \<Longrightarrow>
     start \<le> stop \<and> concat (map (range_bytes buf) rs) = take (stop - start) (drop start buf)"
proof (induction rs arbitrary: start)
  case Nil
  then show ?case by simp
next
  case (Cons r rs)
  obtain b e where r: "r = (b, e)" by (cases r)
  from Cons.prems r have be: "b = start" "b \<le> e" and c: "contiguous e rs stop" by simp_all
  from Cons.IH [OF c Cons.prems(2)] have es: "e \<le> stop"
    and cc: "concat (map (range_bytes buf) rs) = take (stop - e) (drop e buf)" by simp_all
  have hd: "range_bytes buf r = take (e - b) (drop b buf)"
    using r by (simp add: range_bytes_def)
  have "take (e - b) (drop b buf) @ take (stop - e) (drop e buf) = take (stop - b) (drop b buf)"
  proof -
    have "take ((e - b) + (stop - e)) (drop b buf)
            = take (e - b) (drop b buf) @ take (stop - e) (drop (e - b) (drop b buf))"
      by (rule take_add)
    moreover have "(e - b) + (stop - e) = stop - b" using be es by simp
    moreover have "drop (e - b) (drop b buf) = drop e buf" using be by simp
    ultimately show ?thesis by simp
  qed
  then have "concat (map (range_bytes buf) (r # rs)) = take (stop - start) (drop start buf)"
    using hd cc be(1) by simp
  moreover have "start \<le> stop" using be es by simp
  ultimately show ?case by simp
qed

text \<open>
  Claim C4. Under the same conditions as for C1 (a non-empty read, the handler runs to
  its end), the upstream's buffer afterwards is empty when the parse was \<open>finished\<close>, and
  otherwise is the buffer without its first \<open>interrupt_point\<close> bytes. When the ranges of
  the parse are contiguous from offset 0 to \<open>interrupt_point\<close>, the framed messages
  followed by the retained bytes are the buffer that was parsed: what is kept is exactly
  the trailing partial message. A parse with no complete message removes nothing from
  pending and, resuming at offset 0, keeps every buffered byte.
\<close>

theorem recv_from_keeps_partial_tail:
  assumes "server_conn p = Some (sa, s)"
    and "e_read ev = ReadBytes d" "d \<noteq> []"
    and "split (s_buffer s @ d) = Some m"
    and "length (ranges m) \<le> length (ready_clients s)"
    and "\<forall>a. Some a \<in> set (take (length (ranges m)) (ready_clients s)) \<longrightarrow>
                  (\<exists>c. client_heap p a = Some c \<and> e_ctl ev (fd c) \<noteq> - 1)"
    and "e_ctl ev (fd s) \<noteq> - 1"
  shows "\<exists>p' s'. Server__recv_from split ev p = Inr p' \<and> server_conn p' = Some (sa, s') \<and>
           (finished m \<longrightarrow> s_buffer s' = []) \<and>
           (\<not> finished m \<longrightarrow> s_buffer s' = drop (interrupt_point m) (s_buffer s @ d)) \<and>
           (\<not> finished m \<and> contiguous 0 (ranges m) (interrupt_point m) \<and>
              interrupt_point m \<le> length (s_buffer s @ d) \<longrightarrow>
              concat (map (range_bytes (s_buffer s @ d)) (ranges m)) @ s_buffer s' = s_buffer s @ d) \<and>
           (ranges m = [] \<longrightarrow> ready_clients s' = ready_clients s) \<and>
           (ranges m = [] \<and> \<not> finished m \<and> interrupt_point m = 0 \<longrightarrow> s_buffer s' = s_buffer s @ d)"
proof -
  let ?b = "s_buffer s @ d"
  let ?s' = "s\<lparr>s_buffer := (if finished m then [] else drop (interrupt_point m) ?b),
                       ready_clients := drop (length (ranges m)) (ready_clients s),
                       interest := EPOLLIN OR EPOLLOUT OR EPOLLET\<rparr>"
  let ?p' = "p\<lparr>server_conn := Some (sa, ?s'),
                  client_heap := deliver ?b (ready_clients s) (ranges m) (client_heap p)\<rparr>"
  have r: "Server__recv_from split ev p = Inr ?p'"
    by (rule Server__recv_from_delivers [where split = split and m = m and d = d, OF assms])
  have tail: "concat (map (range_bytes ?b) (ranges m)) @ drop (interrupt_point m) ?b = ?b"
    if c: "contiguous 0 (ranges m) (interrupt_point m)" and l: "interrupt_point m \<le> length ?b"
  proof -
    from contiguous_concat [OF c l]
    have "concat (map (range_bytes ?b) (ranges m)) = take (interrupt_point m) ?b" by simp
    then show ?thesis by (simp only: append_take_drop_id)
  qed
  have "server_conn ?p' = Some (sa, ?s') \<and>
           (finished m \<longrightarrow> s_buffer ?s' = []) \<and>
           (\<not> finished m \<longrightarrow> s_buffer ?s' = drop (interrupt_point m) ?b) \<and>
           (\<not> finished m \<and> contiguous 0 (ranges m) (interrupt_point m) \<and>
              interrupt_point m \<le> length ?b \<longrightarrow>
              concat (map (range_bytes ?b) (ranges m)) @ s_buffer ?s' = ?b) \<and>
           (ranges m = [] \<longrightarrow> ready_clients ?s' = ready_clients s) \<and>
           (ranges m = [] \<and> \<not> finished m \<and> interrupt_point m = 0 \<longrightarrow> s_buffer ?s' = ?b)"
    using tail by simp
  with r show ?thesis by blast
qed

theorem recv_from_keeps_partial_tail_witness:
  "\<exists>p' s' p'' s''.
     Server__recv_from resp_split partial_reply in_flight = Inr p' \<and>
     server_conn p' = Some (2, s') \<and> s_buffer s' = ''+PO'' \<and>
     ready_clients s' = [Some 0, Some 1] \<and>
     Server__recv_from resp_split rest_of_replies p' = Inr p'' \<and>
     server_conn p'' = Some (2, s'') \<and> s_buffer s'' = ''+P''"
proof -
  let ?s = "upstream\<lparr>clients := [], ready_clients := [Some 0, Some 1], interest := EPOLLIN OR EPOLLET\<rparr>"
  let ?m = "\<lparr>ranges = [], finished = False, interrupt_point = 0\<rparr>"
  have h1: "server_conn in_flight = Some (2, ?s)" by (simp add: in_flight_def)
  have h2: "e_read partial_reply = ReadBytes ''+PO''" by (simp add: partial_reply_def)
  have h3: "''+PO'' \<noteq> []" by simp
  have h4: "resp_split (s_buffer ?s @ ''+PO'') = Some ?m"
    by (simp add: resp_split_def scen)
  have h5: "length (ranges ?m) \<le> length (ready_clients ?s)" by simp
  have h6: "\<forall>a. Some a \<in> set (take (length (ranges ?m)) (ready_clients ?s)) \<longrightarrow>
                  (\<exists>c. client_heap in_flight a = Some c \<and> e_ctl partial_reply (fd c) \<noteq> - 1)"
    by simp
  have h7: "e_ctl partial_reply (fd ?s) \<noteq> - 1" by (simp add: scen partial_reply_def)
  from recv_from_keeps_partial_tail [where split = resp_split and m = ?m, OF h1 h2 h3 h4 h5 h6 h7]
  obtain p' s' where
    r: "Server__recv_from resp_split partial_reply in_flight = Inr p'" "server_conn p' = Some (2, s')"
       "s_buffer s' = s_buffer ?s @ ''+PO''" "ready_clients s' = ready_clients ?s"
    by auto
  have p': "p' = in_flight\<lparr>server_conn := Some (2, ?s\<lparr>s_buffer := ''+PO'',
                              interest := EPOLLIN OR EPOLLOUT OR EPOLLET\<rparr>)\<rparr>"
    using r(1) by (simp add: scen kconsts handlers partial_reply_def resp_split_def Let_def)
  let ?t = "?s\<lparr>s_buffer := ''+PO'', interest := EPOLLIN OR EPOLLOUT OR EPOLLET\<rparr>"
  let ?n = "\<lparr>ranges = [(0, 7), (7, 14)], finished = False, interrupt_point = 14\<rparr>"
  have k1: "server_conn p' = Some (2, ?t)" by (simp add: p')
  have k2: "e_read rest_of_replies = ReadBytes (''NG'' @ [CR, LF] @ pong @ ''+P'')"
    by (simp add: rest_of_replies_def)
  have k3: "''NG'' @ [CR, LF] @ pong @ ''+P'' \<noteq> []" by simp
  have k4: "resp_split (s_buffer ?t @ ''NG'' @ [CR, LF] @ pong @ ''+P'') = Some ?n"
    by (simp add: resp_split_def scen)
  have k5: "length (ranges ?n) \<le> length (ready_clients ?t)" by simp
  have k6: "\<forall>a. Some a \<in> set (take (length (ranges ?n)) (ready_clients ?t)) \<longrightarrow>
                  (\<exists>c. client_heap p' a = Some c \<and> e_ctl rest_of_replies (fd c) \<noteq> - 1)"
    by (simp add: p' scen rest_of_replies_def)
  have k7: "e_ctl rest_of_replies (fd ?t) \<noteq> - 1" by (simp add: scen rest_of_replies_def)
  from recv_from_keeps_partial_tail [where split = resp_split and m = ?n, OF k1 k2 k3 k4 k5 k6 k7]
  obtain p'' s'' where
    q: "Server__recv_from resp_split rest_of_replies p' = Inr p''" "server_conn p'' = Some (2, s'')"
       "s_buffer s'' = drop (interrupt_point ?n) (s_buffer ?t @ ''NG'' @ [CR, LF] @ pong @ ''+P'')"
    by auto
  have "s_buffer s'' = ''+P''" using q(3) by (simp add: scen)
  with r q(1,2) show ?thesis by (simp add: upstream_def)
qed

lemma report_clients_exit:
  "\<forall>a. Some a \<in> set cs \<longrightarrow> a \<in> dom h \<Longrightarrow> None \<notin> set cs \<Longrightarrow> report_clients h cs = Exit 1"
  by (induction h cs rule: report_clients.induct) auto

lemma recv_from_fail_stop:
  assumes "server_conn p = Some (sa, s)" "e_read ev = ReadBytes d" "d \<noteq> []"
    and "split (s_buffer s @ d) = None \<or>
         (\<exists>m. split (s_buffer s @ d) = Some m \<and> length (ready_clients s) < length (ranges m))"
  shows "\<exists>f. Server__recv_from split ev p = Inl f"
  using assms by (auto simp: Server__recv_from_def Buffer_read_def)

lemma recv_from_exit_1:
  assumes "server_conn p = Some (sa, s)" "e_read ev = ReadBytes d" "d \<noteq> []"
    and "split (s_buffer s @ d) = None \<or>
         (\<exists>m. split (s_buffer s @ d) = Some m \<and> length (ready_clients s) < length (ranges m))"
    and "\<forall>a. Some a \<in> set (ready_clients s) \<longrightarrow> a \<in> dom (client_heap p)"
    and "None \<notin> set (ready_clients s)"
  shows "Server__recv_from split ev p = Inl (Exit 1)"
  using assms by (auto simp: Server__recv_from_def Buffer_read_def report_clients_exit)

text \<open>
  Claim C2 (the code departs from it). A framer exception, or more messages than
  pending has entries, never lets \<open>_recv_from\<close> return, and ends in \<open>exit(1)\<close> when pending
  holds no \<open>nullptr\<close> (the two lemmas above). With a tombstone in pending the diagnostic
  loop before \<open>exit(1)\<close> dereferences it: client 0 has died in flight, three replies
  arrive for two pending entries, and the handler ends in the null dereference, not in
  an exit status.
\<close>

theorem recv_from_mismatch_null_dereference:
  "server_conn (delete_Client 0 in_flight) =
     Some (2, upstream\<lparr>clients := [], ready_clients := [None, Some 1], interest := EPOLLIN OR EPOLLET\<rparr>) \<and>
   map_option (\<lambda>m. length (ranges m)) (resp_split (pong @ pong @ pong)) = Some 3 \<and>
   Server__recv_from resp_split three_replies (delete_Client 0 in_flight) = Inl NullDeref"
  by (simp add: scen kconsts handlers three_replies_def resp_split_def Let_def)

section \<open>Reachable states\<close>

lemma pipelined_run: "run resp_split pipelined_trace Proxy_init = Inr pipelined"
  by (simp add: pipelined_trace_def pipelined_def scen kconsts handlers Let_def numeral_2_eq_2 [symmetric] numeral_3_eq_3 [symmetric])

text \<open>
  Claim C7, as stated, fails: after the events of \<open>pipelined_trace\<close> the one live client
  stands once in pending and once in staging, so the two lengths sum to 2 with 1 live
  client session.
\<close>

theorem queues_exceed_live_clients:
  "run resp_split pipelined_trace Proxy_init = Inr pipelined \<and>
   queued pipelined = 2 \<and> live_clients pipelined = 1 \<and>
   \<not> queued pipelined \<le> live_clients pipelined"
  by (simp add: pipelined_run) (simp add: pipelined_def queued_def live_clients_def)

lemma length_pop_client_from: "length (pop_client_from cs c) \<le> length cs"
  by (simp add: pop_client_from_remove1 length_remove1)

lemma queued_delete_Client: "queued (delete_Client a p) \<le> queued p"
  using length_pop_client_from
  by (auto simp: queued_def delete_Client_def shut_client_def pop_client_def replace_def Let_def
        add_le_mono split: option.splits)

lemma server_conn_accept_loop:
  "accept_loop ev fds p = Inr p' \<Longrightarrow> server_conn p' = server_conn p"
  by (induction ev fds p rule: accept_loop.induct)
     (auto simp: accept_done_def split: if_splits)

lemma server_conn_Client__send_to:
  "Client__send_to ev a p = Inr p' \<Longrightarrow> server_conn p' = server_conn p"
  by (auto simp: Client__send_to_def Let_def split: option.splits if_splits)

lemma connect_to_cases:
  assumes "connect_to ev p = Inr (c, p')"
  shows "(\<exists>s. server_conn p = Some (c, s) \<and> p' = p) \<or>
         (server_conn p = None \<and> c = next_addr p \<and>
          p' = p\<lparr>server_conn := Some (next_addr p,
                     \<lparr>fd = e_socket ev, interest = EPOLLIN OR EPOLLOUT OR EPOLLET,
                      s_buffer = [], clients = [], ready_clients = []\<rparr>),
                 next_addr := Suc (next_addr p)\<rparr>)"
  using assms by (auto simp: connect_to_def Let_def split: option.splits if_splits)

lemma Client__recv_from_cases:
  assumes "Client__recv_from ev a p = Inr p'"
  shows "\<exists>p1 sa s. (p1 = p \<or> (\<exists>c. connect_to ev p = Inr (c, p1))) \<and>
           server_conn p1 = Some (sa, s) \<and>
           (server_conn p' = Some (sa, pop_client a (push_client a s)) \<or>
            server_conn p' = Some (sa, (push_client a s)\<lparr>interest := EPOLLIN OR EPOLLOUT OR EPOLLET\<rparr>))"
  using assms
  apply (simp add: Client__recv_from_def split: option.splits sum.splits prod.splits)
  apply (auto simp: Let_def delete_Client_def shut_client_def split: if_splits)
  done

lemma Server__recv_from_cases:
  assumes "Server__recv_from split ev p = Inr p'"
  shows "p' = p \<or>
         (\<exists>sa s b k h. server_conn p = Some (sa, s) \<and>
            p' = p\<lparr>server_conn := Some (sa, s\<lparr>s_buffer := b, ready_clients := drop k (ready_clients s),
                                             interest := EPOLLIN OR EPOLLOUT OR EPOLLET\<rparr>),
                   client_heap := h\<rparr>)"
  using assms
  apply (simp add: Server__recv_from_def split: option.splits sum.splits prod.splits if_splits)
  apply (auto simp: Let_def split: if_splits)
  done

lemma Server__send_to_cases:
  assumes "Server__send_to ev p = Inr p'"
  shows "p' = p \<or>
         (\<exists>sa s calls. server_conn p = Some (sa, s) \<and> ready_clients s = [] \<and>
            p' = p\<lparr>server_conn := Some (sa, s\<lparr>ready_clients := clients s, clients := [],
                                             interest := EPOLLIN OR EPOLLET\<rparr>),
                   syslog := syslog p @ calls\<rparr>)"
  using assms
  by (auto simp: Server__send_to_def Let_def split: option.splits sum.splits prod.splits if_splits)

lemma queued_connect_to: "connect_to ev p = Inr (c, p1) \<Longrightarrow> queued p1 \<le> queued p"
  by (drule connect_to_cases) (auto simp: queued_def)

lemma queued_Client__recv_from:
  assumes "Client__recv_from ev a p = Inr p'"
  shows "queued p' \<le> Suc (queued p)"
proof -
  from Client__recv_from_cases [OF assms] obtain p1 sa s where
    p1: "p1 = p \<or> (\<exists>c. connect_to ev p = Inr (c, p1))" and
    s: "server_conn p1 = Some (sa, s)" and
    p': "server_conn p' = Some (sa, pop_client a (push_client a s)) \<or>
         server_conn p' = Some (sa, (push_client a s)\<lparr>interest := EPOLLIN OR EPOLLOUT OR EPOLLET\<rparr>)"
    by blast
  from p1 have q1: "queued p1 \<le> queued p" by (auto dest: queued_connect_to)
  have "length (pop_client_from (clients s @ [Some a]) a) \<le> Suc (length (clients s))"
    using length_pop_client_from [of "clients s @ [Some a]" a] by simp
  with p' s have "queued p' \<le> Suc (queued p1)"
    by (auto simp: queued_def pop_client_def push_client_def replace_def)
  with q1 show ?thesis by simp
qed

lemma queued_Server__recv_from: "Server__recv_from split ev p = Inr p' \<Longrightarrow> queued p' \<le> queued p"
  by (drule Server__recv_from_cases) (auto simp: queued_def)

lemma queued_Server__send_to: "Server__send_to ev p = Inr p' \<Longrightarrow> queued p' \<le> queued p"
  by (drule Server__send_to_cases) (auto simp: queued_def)

lemma queued_dispatch:
  assumes "dispatch split e p = Inr p'"
  shows "queued p' \<le> queued p + (if client_readable e then 1 else 0)"
proof (cases e)
  case (AcceptorEv ev)
  with assms have "server_conn p' = server_conn p"
    by (auto simp: accept_from_def dest: server_conn_accept_loop)
  then show ?thesis by (simp add: queued_def)
next
  case (ClientEv a events ev)
  show ?thesis
  proof (cases "client_heap p a")
    case None
    with assms ClientEv show ?thesis by simp
  next
    case (Some c)
    with assms ClientEv have t: "Client_triggered events ev a p = Inr p'" by simp
    show ?thesis
    proof (cases "events AND EPOLLRDHUP \<noteq> 0")
      case True
      with t have "p' = delete_Client a p" by (simp add: Client_triggered_def)
      with queued_delete_Client [of a p] show ?thesis by simp
    next
      case hup: False
      show ?thesis
      proof (cases "events AND EPOLLIN \<noteq> 0")
        case True
        with t hup obtain p1 where r: "Client__recv_from ev a p = Inr p1"
          and w: "p' = p1 \<or> Client__send_to ev a p1 = Inr p'"
          by (auto simp: Client_triggered_def split: sum.splits if_splits)
        from w have "queued p' = queued p1"
          by (auto simp: queued_def dest: server_conn_Client__send_to)
        with queued_Client__recv_from [OF r] True hup ClientEv show ?thesis by simp
      next
        case False
        with t hup have "p' = p \<or> Client__send_to ev a p = Inr p'"
          by (auto simp: Client_triggered_def split: if_splits)
        then have "queued p' = queued p"
          by (auto simp: queued_def dest: server_conn_Client__send_to)
        then show ?thesis by simp
      qed
    qed
  qed
next
  case (ServerEv events ev)
  show ?thesis
  proof (cases "server_conn p")
    case None
    with assms ServerEv show ?thesis by simp
  next
    case (Some x)
    with assms ServerEv have t: "Server_triggered split events ev p = Inr p'" by simp
    show ?thesis
    proof (cases "events AND EPOLLRDHUP \<noteq> 0")
      case True
      with t have "p' = delete_Server p" by (simp add: Server_triggered_def)
      then show ?thesis by (simp add: queued_def delete_Server_def shut_server_def)
    next
      case False
      with t obtain p1 where r: "p1 = p \<or> Server__recv_from split ev p = Inr p1"
        and w: "p' = p1 \<or> Server__send_to ev p1 = Inr p'"
        by (auto simp: Server_triggered_def split: sum.splits if_splits)
      from r have "queued p1 \<le> queued p" by (auto dest: queued_Server__recv_from)
      moreover from w have "queued p' \<le> queued p1" by (auto dest: queued_Server__send_to)
      ultimately show ?thesis using ServerEv by simp
    qed
  qed
next
  case (WaitFailed errno)
  with assms show ?thesis by (simp split: if_splits)
qed

lemma queued_run:
  "run split es p = Inr p' \<Longrightarrow> queued p' \<le> queued p + length (filter client_readable es)"
proof (induction es arbitrary: p)
  case Nil
  then show ?case by simp
next
  case (Cons e es)
  from Cons.prems obtain p1 where d: "dispatch split e p = Inr p1" and r: "run split es p1 = Inr p'"
    by (auto split: sum.splits)
  from queued_dispatch [OF d] Cons.IH [OF r] show ?case by auto
qed

text \<open>
  Claim C7, amended. In every state reached from the initial proxy, the sum of the
  lengths of pending and staging is at most the number of readable events that client
  sessions have handled (events with \<open>EPOLLIN\<close> and without \<open>EPOLLRDHUP\<close>): each one
  pushes the client once, and nothing else adds an entry.
\<close>

theorem queues_bounded_by_readable_edges:
  "run split es Proxy_init = Inr p \<longrightarrow> queued p \<le> length (filter client_readable es)"
proof
  assume "run split es Proxy_init = Inr p"
  from queued_run [OF this] show "queued p \<le> length (filter client_readable es)"
    by (simp add: queued_def Proxy_init_def)
qed

theorem queues_bounded_by_readable_edges_witness:
  "run resp_split pipelined_trace Proxy_init = Inr pipelined \<and>
   queued pipelined \<le> length (filter client_readable pipelined_trace) \<and>
   length (filter client_readable pipelined_trace) = 2"
proof -
  have r: "run resp_split pipelined_trace Proxy_init = Inr pipelined" by (rule pipelined_run)
  have "length (filter client_readable pipelined_trace) = 2"
    by (simp add: pipelined_trace_def kconsts)
  with queues_bounded_by_readable_edges [of resp_split pipelined_trace pipelined] r show ?thesis by simp
qed

lemma mask_delete_Client: "upstream_mask_ok p \<Longrightarrow> upstream_mask_ok (delete_Client a p)"
  by (auto simp: upstream_mask_ok_def delete_Client_def shut_client_def pop_client_def Let_def
        split: option.splits)

lemma mask_connect_to: "connect_to ev p = Inr (c, p1) \<Longrightarrow> upstream_mask_ok p \<Longrightarrow> upstream_mask_ok p1"
  by (drule connect_to_cases) (auto simp: upstream_mask_ok_def)

lemma mask_Client__recv_from:
  assumes "Client__recv_from ev a p = Inr p'" "upstream_mask_ok p"
  shows "upstream_mask_ok p'"
proof -
  from Client__recv_from_cases [OF assms(1)] obtain p1 sa s where
    p1: "p1 = p \<or> (\<exists>c. connect_to ev p = Inr (c, p1))" and
    s: "server_conn p1 = Some (sa, s)" and
    p': "server_conn p' = Some (sa, pop_client a (push_client a s)) \<or>
         server_conn p' = Some (sa, (push_client a s)\<lparr>interest := EPOLLIN OR EPOLLOUT OR EPOLLET\<rparr>)"
    by blast
  from p1 assms(2) have "upstream_mask_ok p1" by (auto dest: mask_connect_to)
  with s p' show ?thesis
    by (auto simp: upstream_mask_ok_def pop_client_def push_client_def)
qed

lemma mask_Server__recv_from:
  "Server__recv_from split ev p = Inr p' \<Longrightarrow> upstream_mask_ok p \<Longrightarrow> upstream_mask_ok p'"
  by (drule Server__recv_from_cases) (auto simp: upstream_mask_ok_def)

lemma mask_Server__send_to:
  "Server__send_to ev p = Inr p' \<Longrightarrow> upstream_mask_ok p \<Longrightarrow> upstream_mask_ok p'"
  by (drule Server__send_to_cases) (auto simp: upstream_mask_ok_def)

lemma mask_dispatch:
  assumes "dispatch split e p = Inr p'" "upstream_mask_ok p"
  shows "upstream_mask_ok p'"
proof (cases e)
  case (AcceptorEv ev)
  with assms(1) have "server_conn p' = server_conn p"
    by (auto simp: accept_from_def dest: server_conn_accept_loop)
  with assms(2) show ?thesis by (simp add: upstream_mask_ok_def)
next
  case (ClientEv a events ev)
  show ?thesis
  proof (cases "client_heap p a")
    case None
    with assms ClientEv show ?thesis by simp
  next
    case (Some c)
    with assms ClientEv have t: "Client_triggered events ev a p = Inr p'" by simp
    show ?thesis
    proof (cases "events AND EPOLLRDHUP \<noteq> 0")
      case True
      with t have "p' = delete_Client a p" by (simp add: Client_triggered_def)
      with mask_delete_Client [OF assms(2)] show ?thesis by simp
    next
      case False
      with t obtain p1 where r: "p1 = p \<or> Client__recv_from ev a p = Inr p1"
        and w: "p' = p1 \<or> Client__send_to ev a p1 = Inr p'"
        by (auto simp: Client_triggered_def split: sum.splits if_splits)
      from r assms(2) have "upstream_mask_ok p1" by (auto dest: mask_Client__recv_from)
      with w show ?thesis
        by (auto simp: upstream_mask_ok_def dest: server_conn_Client__send_to)
    qed
  qed
next
  case (ServerEv events ev)
  show ?thesis
  proof (cases "server_conn p")
    case None
    with assms ServerEv show ?thesis by simp
  next
    case (Some x)
    with assms ServerEv have t: "Server_triggered split events ev p = Inr p'" by simp
    show ?thesis
    proof (cases "events AND EPOLLRDHUP \<noteq> 0")
      case True
      with t have "p' = delete_Server p" by (simp add: Server_triggered_def)
      then show ?thesis by (simp add: upstream_mask_ok_def delete_Server_def shut_server_def)
    next
      case False
      with t obtain p1 where r: "p1 = p \<or> Server__recv_from split ev p = Inr p1"
        and w: "p' = p1 \<or> Server__send_to ev p1 = Inr p'"
        by (auto simp: Server_triggered_def split: sum.splits if_splits)
      from r assms(2) have "upstream_mask_ok p1" by (auto dest: mask_Server__recv_from)
      with w show ?thesis by (auto dest: mask_Server__send_to)
    qed
  qed
next
  case (WaitFailed errno)
  with assms show ?thesis by (simp split: if_splits)
qed

lemma mask_run:
  "run split es p = Inr p' \<Longrightarrow> upstream_mask_ok p \<Longrightarrow> upstream_mask_ok p'"
proof (induction es arbitrary: p)
  case Nil
  then show ?case by simp
next
  case (Cons e es)
  from Cons.prems(1) obtain p1 where d: "dispatch split e p = Inr p1" and r: "run split es p1 = Inr p'"
    by (auto split: sum.splits)
  from Cons.IH [OF r mask_dispatch [OF d Cons.prems(2)]] show ?case .
qed

text \<open>
  Claim C9. In every state reached from the initial proxy, the mask registered for the
  upstream's descriptor is \<open>EPOLLIN | EPOLLET\<close> or \<open>EPOLLIN | EPOLLOUT | EPOLLET\<close>, so it
  never has \<open>EPOLLRDHUP\<close>; and \<open>connect_to\<close>, when it creates the upstream session,
  registers it with \<open>EPOLLIN | EPOLLOUT | EPOLLET\<close>.
\<close>

theorem upstream_interest_never_rdhup:
  "(run split es Proxy_init = Inr p \<and> server_conn p = Some (sa, s) \<longrightarrow>
      (interest s = EPOLLIN OR EPOLLET \<or> interest s = EPOLLIN OR EPOLLOUT OR EPOLLET) \<and>
      interest s AND EPOLLRDHUP = 0) \<and>
   (server_conn q = None \<and> connect_to ev q = Inr (c, q') \<longrightarrow>
      (\<exists>s'. server_conn q' = Some (c, s') \<and> interest s' = EPOLLIN OR EPOLLOUT OR EPOLLET))"
proof -
  have inv: "(interest s = EPOLLIN OR EPOLLET \<or> interest s = EPOLLIN OR EPOLLOUT OR EPOLLET) \<and>
      interest s AND EPOLLRDHUP = 0"
    if r: "run split es Proxy_init = Inr p" and sc: "server_conn p = Some (sa, s)"
  proof -
    have "upstream_mask_ok Proxy_init" by (simp add: upstream_mask_ok_def Proxy_init_def)
    from mask_run [OF r this] sc
    have m: "interest s = EPOLLIN OR EPOLLET \<or> interest s = EPOLLIN OR EPOLLOUT OR EPOLLET"
      by (simp add: upstream_mask_ok_def)
    have "(EPOLLIN OR EPOLLET) AND EPOLLRDHUP = 0" "(EPOLLIN OR EPOLLOUT OR EPOLLET) AND EPOLLRDHUP = 0"
      by (simp_all add: kconsts)
    with m show ?thesis by auto
  qed
  have reg: "\<exists>s'. server_conn q' = Some (c, s') \<and> interest s' = EPOLLIN OR EPOLLOUT OR EPOLLET"
    if "server_conn q = None" "connect_to ev q = Inr (c, q')"
    using connect_to_cases [OF that(2)] that(1) by auto
  from inv reg show ?thesis by blast
qed

theorem upstream_interest_never_rdhup_witness:
  "run resp_split pipelined_trace Proxy_init = Inr pipelined \<and>
   (\<exists>s. server_conn pipelined = Some (1, s) \<and> interest s = EPOLLIN OR EPOLLOUT OR EPOLLET \<and>
        interest s AND EPOLLRDHUP = 0) \<and>
   (\<exists>q' s'. connect_to quiet Proxy_init = Inr (0, q') \<and> server_conn q' = Some (0, s') \<and>
        interest s' = EPOLLIN OR EPOLLOUT OR EPOLLET)"
proof -
  let ?s = "\<lparr>fd = 6, interest = EPOLLIN OR EPOLLOUT OR EPOLLET, s_buffer = [],
                              clients = [Some 0], ready_clients = [Some 0]\<rparr>"
  let ?q' = "Proxy_init\<lparr>server_conn := Some (0,
                     \<lparr>fd = 6, interest = EPOLLIN OR EPOLLOUT OR EPOLLET,
                      s_buffer = [], clients = [], ready_clients = []\<rparr>), next_addr := Suc 0\<rparr>"
  have r: "run resp_split pipelined_trace Proxy_init = Inr pipelined" by (rule pipelined_run)
  have sc: "server_conn pipelined = Some (1, ?s)" by (simp add: pipelined_def)
  have n: "server_conn Proxy_init = None" by (simp add: Proxy_init_def)
  have c: "connect_to quiet Proxy_init = Inr (0, ?q')"
    by (simp add: connect_to_def quiet_def Proxy_init_def kconsts Let_def)
  from upstream_interest_never_rdhup [of resp_split pipelined_trace pipelined 1 ?s Proxy_init quiet 0 ?q'] r sc n c
  show ?thesis by auto
qed

end
